theory Spec2Isabelle
  imports Main "HOL-Library.Multiset" "HOL-Library.Sublist"
begin

section \<open>Python strings\<close>

text \<open>
  The two notebooks under \<^verbatim>\<open>dev/encoding\<close> share \<^verbatim>\<open>create_caption\<close> and
  \<^verbatim>\<open>encode_captioned_dataset\<close>; they differ only in how a batch is unpacked
  (a dictionary in the streaming notebook, a tuple in the webdataset notebook).

  A Python \<^verbatim>\<open>str\<close> is modelled as a \<^typ>\<open>string\<close>; a character stands for a code point
  below 256. \<^verbatim>\<open>str.strip()\<close> without argument removes the characters for which
  \<^verbatim>\<open>str.isspace\<close> holds: in that range the code points 9 to 13, 28 to 32, 133 and 160.
\<close>

definition isspace :: "char \<Rightarrow> bool" where
  "isspace c = (of_char c \<in> {9::nat, 10, 11, 12, 13, 28, 29, 30, 31, 32, 133, 160})"

definition lstrip :: "string \<Rightarrow> string" where
  "lstrip s = dropWhile isspace s"

definition rstrip :: "string \<Rightarrow> string" where
  "rstrip s = rev (dropWhile isspace (rev s))"

definition strip :: "string \<Rightarrow> string" where
  "strip s = rstrip (lstrip s)"

text \<open>\<^verbatim>\<open>c in s\<close> for a one-character string \<^verbatim>\<open>c\<close> is membership among the characters of \<^verbatim>\<open>s\<close>.\<close>

definition py_in :: "char \<Rightarrow> string \<Rightarrow> bool" where
  "py_in c s = (c \<in> set s)"

section \<open>Caption preparation\<close>

text \<open>
  \<^verbatim>\<open>
  def create_caption(title, description):
      title = title.strip()
      description = description.strip()
      if len(title) > 0 and title[-1] not in '.!?': title += '.'
      return f'{title} {description}'
  \<close>
  \<^verbatim>\<open>title[-1]\<close> is read only when the title is not empty, where it is the element at
  index \<^verbatim>\<open>len(title) - 1\<close>.
\<close>

definition create_caption :: "string \<Rightarrow> string \<Rightarrow> string" where
  "create_caption title description =
     (let title1 = strip title;
          description1 = strip description;
          title2 = (if length title1 > 0 \<and> \<not> py_in (title1 ! (length title1 - 1)) ''.!?''
                    then title1 @ ''.'' else title1)
      in title2 @ '' '' @ description1)"

section \<open>Rendering integers\<close>

text \<open>
  \<^verbatim>\<open>str(x)\<close> of a Python integer is its decimal numeral, with a leading minus sign
  for a negative number.
\<close>

definition digit_char :: "nat \<Rightarrow> char" where
  "digit_char d = ''0123456789abcdef'' ! d"

fun dec_digits :: "nat \<Rightarrow> string" where
  "dec_digits n = (if n < 10 then [digit_char n] else dec_digits (n div 10) @ [digit_char (n mod 10)])"

declare dec_digits.simps [simp del]

definition py_str :: "int \<Rightarrow> string" where
  "py_str x = (if x < 0 then CHR ''-'' # dec_digits (nat (- x)) else dec_digits (nat x))"

text \<open>
  The format specification \<^verbatim>\<open>05x\<close> of \<^verbatim>\<open>f'split_{split_num:05x}.jsonl'\<close>: lowercase
  hexadecimal, padded with zeros after the sign to a width of at least 5 characters.
  The width is a minimum: a longer numeral is not cut.
\<close>

fun hex_digits :: "nat \<Rightarrow> string" where
  "hex_digits n = (if n < 16 then [digit_char n] else hex_digits (n div 16) @ [digit_char (n mod 16)])"

declare hex_digits.simps [simp del]

definition zero_pad :: "nat \<Rightarrow> string \<Rightarrow> string" where
  "zero_pad w s = replicate (w - length s) CHR ''0'' @ s"

definition format_05x :: "int \<Rightarrow> string" where
  "format_05x x = (if x < 0 then CHR ''-'' # zero_pad 4 (hex_digits (nat (- x)))
                   else zero_pad 5 (hex_digits (nat x)))"

definition split_name :: "int \<Rightarrow> string" where
  "split_name split_num = ''split_'' @ format_05x split_num @ ''.jsonl''"

section \<open>Serialising a token sequence\<close>

text \<open>
  \<^verbatim>\<open>
  np.array2string(item, separator=',', max_line_width=50000,
                  formatter={'int': lambda x: str(x)})
  \<close>
  is numpy's printer on a one-dimensional integer array, with numpy's default print
  options for everything the call does not set: \<^verbatim>\<open>threshold = 1000\<close> and
  \<^verbatim>\<open>edgeitems = 3\<close>. The definitions follow \<^verbatim>\<open>numpy.core.arrayprint\<close>:
  \<^verbatim>\<open>_extendLine\<close> starts a new line when a word would pass the line width,
  \<^verbatim>\<open>_formatArray\<close> puts the words and separators on lines and, for an array of more
  than \<^verbatim>\<open>threshold\<close> elements, prints only the first and last \<^verbatim>\<open>edgeitems\<close> elements
  around \<^verbatim>\<open>...\<close>. With a user formatter the elements are not padded to a common width.
\<close>

definition newline :: char where
  "newline = CHR 0x0A"

definition extendLine :: "string \<Rightarrow> string \<Rightarrow> string \<Rightarrow> nat \<Rightarrow> string \<Rightarrow> string \<times> string" where
  "extendLine s line word line_width next_line_prefix =
     (let needs_wrap = (length line + length word > line_width);
          needs_wrap = (if length line \<le> length next_line_prefix then False else needs_wrap)
      in if needs_wrap then (s @ rstrip line @ [newline], next_line_prefix @ word)
         else (s, line @ word))"

text \<open>The loops \<^verbatim>\<open>for i in ...: word = ...; s, line = _extendLine(...); line += separator\<close>.\<close>

fun extend_words :: "string \<Rightarrow> nat \<Rightarrow> string \<Rightarrow> string list \<Rightarrow> string \<times> string \<Rightarrow> string \<times> string" where
  "extend_words separator w ind [] sl = sl"
| "extend_words separator w ind (word # ws) sl =
     (case extendLine (fst sl) (snd sl) word w ind of
        (s, line) \<Rightarrow> extend_words separator w ind ws (s, line @ separator))"

definition formatArray ::
  "(int \<Rightarrow> string) \<Rightarrow> nat \<Rightarrow> string \<Rightarrow> string \<Rightarrow> nat \<Rightarrow> string \<Rightarrow> int list \<Rightarrow> string" where
  "formatArray format_function line_width next_line_prefix separator edge_items summary_insert a =
     (let hanging_indent = next_line_prefix;
          a_len = length a;
          show_summary = (summary_insert \<noteq> [] \<and> 2 * edge_items < a_len);
          leading_items = (if show_summary then edge_items else 0);
          trailing_items = (if show_summary then edge_items else a_len);
          elem_width = line_width - max (length (rstrip separator)) (length '']'');
          sl0 = ([], hanging_indent);
          sl1 = extend_words separator elem_width hanging_indent
                  (map format_function (take leading_items a)) sl0;
          sl2 = (if show_summary
                 then (case extendLine (fst sl1) (snd sl1) summary_insert elem_width hanging_indent of
                         (s, line) \<Rightarrow> (s, line @ separator))
                 else sl1);
          sl3 = extend_words separator elem_width hanging_indent
                  (map format_function (butlast (drop (a_len - trailing_items) a))) sl2;
          sl4 = extendLine (fst sl3) (snd sl3) (format_function (last a)) elem_width hanging_indent
      in ''['' @ drop (length hanging_indent) (fst sl4 @ snd sl4) @ '']'')"

definition array2string :: "int list \<Rightarrow> string" where
  "array2string a =
     (if length a = 0 then ''[]''
      else formatArray py_str 50000 '' '' '','' 3 (if length a > 1000 then ''...'' else []) a)"

section \<open>Reading a token sequence back\<close>

text \<open>
  Modelled from the spec: the reader of the \<^verbatim>\<open>encoding\<close> field is not part of the two
  notebooks. The spec describes the field as a string rendering of a bracketed
  comma-separated integer list; the reader below accepts exactly that, allowing
  whitespace around each integer.
\<close>

definition digit_val :: "char \<Rightarrow> nat option" where
  "digit_val c = (let k = of_char c :: nat in if 48 \<le> k \<and> k \<le> 57 then Some (k - 48) else None)"

fun parse_digits :: "nat \<Rightarrow> string \<Rightarrow> nat option" where
  "parse_digits acc [] = Some acc"
| "parse_digits acc (c # cs) =
     (case digit_val c of None \<Rightarrow> None | Some d \<Rightarrow> parse_digits (10 * acc + d) cs)"

definition parse_nat :: "string \<Rightarrow> nat option" where
  "parse_nat s = (if s = [] then None else parse_digits 0 s)"

definition parse_int :: "string \<Rightarrow> int option" where
  "parse_int s =
     (case s of
        [] \<Rightarrow> None
      | c # r \<Rightarrow> if c = CHR ''-'' then map_option (\<lambda>n. - int n) (parse_nat r)
                 else map_option int (parse_nat s))"

fun split_on :: "char \<Rightarrow> string \<Rightarrow> string list" where
  "split_on c [] = [[]]"
| "split_on c (x # xs) =
     (if x = c then [] # split_on c xs
      else (case split_on c xs of [] \<Rightarrow> [[x]] | w # ws \<Rightarrow> (x # w) # ws))"

fun sequence_option :: "'a option list \<Rightarrow> 'a list option" where
  "sequence_option [] = Some []"
| "sequence_option (None # xs) = None"
| "sequence_option (Some x # xs) = map_option ((#) x) (sequence_option xs)"

definition parse_encoding :: "string \<Rightarrow> int list option" where
  "parse_encoding s =
     (if length s \<ge> 2 \<and> hd s = CHR ''['' \<and> last s = CHR '']''
      then (let inner = butlast (tl s)
            in if strip inner = [] then Some []
               else sequence_option (map (\<lambda>w. parse_int (strip w)) (split_on CHR '','' inner)))
      else None)"


section \<open>Items and batches\<close>

text \<open>
  \<^verbatim>\<open>
  def prepare_item(item):
      return {
          'key': item['key'],
          'caption': create_caption(item['title_clean'], item['description_clean']),
          'image': preprocess_image(item['img'])
      }
  \<close>
  The image transform is the torchvision pipeline; it is a parameter here.
\<close>

record 'raw dataset_item =
  item_key :: string
  title_clean :: string
  description_clean :: string
  img :: 'raw

record 'img prepared_item =
  prepared_key :: string
  prepared_caption :: string
  prepared_image :: 'img

definition prepare_item :: "('raw \<Rightarrow> 'img) \<Rightarrow> 'raw dataset_item \<Rightarrow> 'img prepared_item" where
  "prepare_item preprocess_image item =
     \<lparr>prepared_key = item_key item,
      prepared_caption = create_caption (title_clean item) (description_clean item),
      prepared_image = preprocess_image (img item)\<rparr>"

text \<open>
  A batch as the loop reads it: \<^verbatim>\<open>batch["key"]\<close>, \<^verbatim>\<open>batch["image"]\<close>,
  \<^verbatim>\<open>batch["caption"]\<close> in the streaming notebook, the tuple
  \<^verbatim>\<open>(keys, images, captions)\<close> in the webdataset notebook.
\<close>

record 'img batch =
  keys :: "string list"
  images :: "'img list"
  captions :: "string list"

definition collate :: "'img prepared_item list \<Rightarrow> 'img batch" where
  "collate its =
     \<lparr>keys = map prepared_key its, images = map prepared_image its,
      captions = map prepared_caption its\<rparr>"

text \<open>
  The batch size of both notebooks is \<^verbatim>\<open>batch_size * jax.device_count()\<close>.
\<close>

definition superbatch_size :: "nat \<Rightarrow> nat \<Rightarrow> nat" where
  "superbatch_size batch_size device_count = batch_size * device_count"

text \<open>
  Both loaders group items as this generator of webdataset does; PyTorch's loader
  does the same for an iterable dataset. Neither notebook sets \<^verbatim>\<open>partial\<close> (default
  \<^verbatim>\<open>True\<close>) or \<^verbatim>\<open>drop_last\<close> (default \<^verbatim>\<open>False\<close>), so a short last batch is kept.
  \<^verbatim>\<open>
  batch = []
  for sample in data:
      if len(batch) >= batchsize:
          yield collation_fn(batch)
          batch = []
      batch.append(sample)
  if len(batch) == 0:
      return
  elif len(batch) == batchsize or partial:
      yield collation_fn(batch)
  \<close>
\<close>

fun batched_loop :: "nat \<Rightarrow> 'a list \<Rightarrow> 'a list \<Rightarrow> 'a list list" where
  "batched_loop batchsize batch [] = (if length batch = 0 then [] else [batch])"
| "batched_loop batchsize batch (sample # data) =
     (if length batch \<ge> batchsize then batch # batched_loop batchsize [sample] data
      else batched_loop batchsize (batch @ [sample]) data)"

definition batched :: "nat \<Rightarrow> 'a list \<Rightarrow> 'a list list" where
  "batched batchsize data = batched_loop batchsize [] data"

text \<open>
  The streaming notebook:
  \<^verbatim>\<open>dataloader = DataLoader(torch_dataset, batch_size=batch_size * jax.device_count())\<close>.
  No \<^verbatim>\<open>num_workers\<close> is given, so the one process of the notebook reads the whole
  item sequence and groups it.
\<close>

definition dataloader :: "nat \<Rightarrow> nat \<Rightarrow> 'img prepared_item list \<Rightarrow> 'img batch list" where
  "dataloader batch_size device_count prepared_dataset =
     map collate (batched (superbatch_size batch_size device_count) prepared_dataset)"

text \<open>
  The webdataset notebook:
  \<^verbatim>\<open>
  bs = batch_size * jax.device_count()
  dataset = wds.WebDataset(shards, length=batches, shardshuffle=False, handler=exception_handler)
  dataset = (dataset.decode('pil').map_dict(jpg=preprocess_image, json=create_caption)
             .to_tuple('__key__', 'jpg', 'json').batched(bs))
  dl = torch.utils.data.DataLoader(dataset, batch_size=None, num_workers=num_workers)
  \<close>
  with \<^verbatim>\<open>num_workers = 8\<close> and nine shards. Each of the worker processes runs the
  dataset on its own shards: webdataset's default splitter gives the worker \<open>wid\<close>
  the shards \<^verbatim>\<open>urls[wid::num_workers]\<close>. The grouping \<^verbatim>\<open>.batched(bs)\<close> is part of the
  dataset, so every worker groups its own items. With \<^verbatim>\<open>batch_size=None\<close> the loader
  hands on what the workers yield: the batches of one worker in their order, the
  batches of different workers interleaved. The shards are given here by the
  prepared items each of them yields.
\<close>

definition split_by_worker :: "nat \<Rightarrow> nat \<Rightarrow> 'a list \<Rightarrow> 'a list" where
  "split_by_worker wid num_workers urls =
     map ((!) urls) (filter (\<lambda>i. i mod num_workers = wid) [0..<length urls])"

definition worker_batches :: "nat \<Rightarrow> nat \<Rightarrow> nat \<Rightarrow> 'img prepared_item list list \<Rightarrow> 'img batch list" where
  "worker_batches bs num_workers wid shards =
     map collate (batched bs (concat (split_by_worker wid num_workers shards)))"

text \<open>
  \<open>interleaving xss ys\<close>: the list \<open>ys\<close> takes every element of every list of \<open>xss\<close>
  once, each list from its front to its end.
\<close>

fun interleaving :: "'a list list \<Rightarrow> 'a list \<Rightarrow> bool" where
  "interleaving xss [] = (\<forall>xs \<in> set xss. xs = [])"
| "interleaving xss (y # ys) =
     (\<exists>i \<in> {0..<length xss}. xss ! i \<noteq> [] \<and> hd (xss ! i) = y
        \<and> interleaving (xss[i := tl (xss ! i)]) ys)"

text \<open>
  \<open>dl_yields bs num_workers shards out\<close>: \<open>out\<close> is an order in which the loader can
  deliver the batches of its workers. PyTorch asks the workers in turn; the definition
  allows every order that keeps the order of each worker, so what is proved of every
  such order holds of the order of a run.
\<close>

definition dl_yields :: "nat \<Rightarrow> nat \<Rightarrow> 'img prepared_item list list \<Rightarrow> 'img batch list \<Rightarrow> bool" where
  "dl_yields bs num_workers shards out =
     interleaving (map (\<lambda>wid. worker_batches bs num_workers wid shards) [0..<num_workers]) out"

section \<open>The output directory and its file handles\<close>

text \<open>
  The output directory is a map from file names to file contents; the content of a
  split file is the list of records written to it, one JSON object per line. The
  handle table lists every handle the run has created, in the order of creation,
  with the name of its file and whether it is still open. The local variable
  \<^verbatim>\<open>file\<close> of the loop is the field \<open>cur_file\<close>: \<^verbatim>\<open>None\<close> or the index of a handle.
\<close>

datatype py_error = ZeroDivisionError | ValueError | EncoderError

record json_record =
  key :: string
  caption :: string
  encoding :: string

record world =
  cur_file :: "nat option"
  handles :: "(string \<times> bool) list"
  disk :: "string \<Rightarrow> json_record list option"

text \<open>\<^verbatim>\<open>open(path, 'w')\<close> creates the file or empties an existing one.\<close>

definition open_w :: "string \<Rightarrow> world \<Rightarrow> world" where
  "open_w name w =
     w\<lparr>cur_file := Some (length (handles w)),
       handles := handles w @ [(name, True)],
       disk := (disk w)(name \<mapsto> [])\<rparr>"

definition close_handle :: "nat \<Rightarrow> world \<Rightarrow> world" where
  "close_handle h w = w\<lparr>handles := (handles w)[h := (fst (handles w ! h), False)]\<rparr>"

text \<open>
  \<^verbatim>\<open>batch_df.to_json(file, orient='records', lines=True)\<close> appends the records to the
  file behind the handle. Given \<^verbatim>\<open>None\<close> for the file, pandas writes nothing and
  returns the text, which the loop drops. A closed handle raises \<^verbatim>\<open>ValueError\<close>.
\<close>

definition to_json :: "nat option \<Rightarrow> json_record list \<Rightarrow> world \<Rightarrow> (py_error \<times> world) + world" where
  "to_json f batch_df w =
     (case f of
        None \<Rightarrow> Inr w
      | Some h \<Rightarrow>
          if h < length (handles w) \<and> snd (handles w ! h)
          then (let name = fst (handles w ! h)
                in Inr (w\<lparr>disk := (disk w)(name \<mapsto>
                          (case disk w name of None \<Rightarrow> batch_df | Some old \<Rightarrow> old @ batch_df))\<rparr>))
          else Inl (ValueError, w))"

text \<open>
  \<^verbatim>\<open>pd.DataFrame.from_dict({"key": keys, "caption": captions, "encoding": encoded_as_string})\<close>
  has one row per position and raises \<^verbatim>\<open>ValueError\<close> when the columns differ in length.
\<close>

definition from_dict :: "string list \<Rightarrow> string list \<Rightarrow> string list \<Rightarrow> py_error + json_record list" where
  "from_dict ks cs es =
     (if length ks = length cs \<and> length cs = length es
      then Inr (map (\<lambda>(k, c, e). \<lparr>key = k, caption = c, encoding = e\<rparr>) (zip ks (zip cs es)))
      else Inl ValueError)"

section \<open>The encoding loop\<close>

text \<open>
  \<^verbatim>\<open>
  def encode_captioned_dataset(dataloader, output_dir, save_every=14):
      output_dir.mkdir(parents=True, exist_ok=True)
      file = None
      for n, batch in enumerate(tqdm(iter(dataloader))):
          if (n % save_every == 0):
              if file is not None:
                  file.close()
              split_num = n // save_every
              file = open(output_dir/f'split_{split_num:05x}.jsonl', 'w')

          images = batch["image"].numpy()
          images = shard(images.squeeze())
          encoded = encode(images)
          encoded = encoded.reshape(-1, encoded.shape[-1])

          keys = batch["key"]
          captions = batch["caption"]

          encoded_as_string = list(map(lambda item: np.array2string(item, separator=',',
              max_line_width=50000, formatter={'int':lambda x: str(x)}), encoded))
          batch_df = pd.DataFrame.from_dict({"key": keys, "caption": captions,
                                             "encoding": encoded_as_string})
          batch_df.to_json(file, orient='records', lines=True)
  \<close>
  The function ends with the loop: there is no statement after it, no \<^verbatim>\<open>with\<close> block
  and no \<^verbatim>\<open>try\<close>/\<^verbatim>\<open>finally\<close>.

  The loop is written over the parameter \<open>encode\<close>, the step from the images of a
  batch to the rows of \<^verbatim>\<open>encoded\<close>, which can fail; \<open>encode_images\<close> below is that
  step as the notebooks write it. A result is either the world at normal return, or
  the exception that left the function together with the world at that moment.
\<close>




definition rotate :: "int \<Rightarrow> nat \<Rightarrow> world \<Rightarrow> (py_error \<times> world) + world" where
  "rotate save_every n w =
     (if save_every = 0 then Inl (ZeroDivisionError, w)
      else if int n mod save_every = 0
      then (let w1 = (case cur_file w of None \<Rightarrow> w | Some h \<Rightarrow> close_handle h w);
                split_num = int n div save_every
            in Inr (open_w (split_name split_num) w1))
      else Inr w)"

definition encode_batch :: "('img list \<Rightarrow> py_error + int list list) \<Rightarrow> 'img batch \<Rightarrow> py_error + json_record list" where
  "encode_batch encode b =
     (case encode (images b) of
        Inl e \<Rightarrow> Inl e
      | Inr encoded \<Rightarrow>
          (let encoded_as_string = map array2string encoded
           in from_dict (keys b) (captions b) encoded_as_string))"

definition loop_body ::
  "('img list \<Rightarrow> py_error + int list list) \<Rightarrow> int \<Rightarrow> nat \<Rightarrow> 'img batch \<Rightarrow> world
   \<Rightarrow> (py_error \<times> world) + world" where
  "loop_body encode save_every n b w =
     (case rotate save_every n w of
        Inl e \<Rightarrow> Inl e
      | Inr w1 \<Rightarrow>
          (case encode_batch encode b of
             Inl e \<Rightarrow> Inl (e, w1)
           | Inr batch_df \<Rightarrow> to_json (cur_file w1) batch_df w1))"

fun encode_loop ::
  "('img list \<Rightarrow> py_error + int list list) \<Rightarrow> int \<Rightarrow> nat \<Rightarrow> 'img batch list \<Rightarrow> world
   \<Rightarrow> (py_error \<times> world) + world" where
  "encode_loop encode save_every n [] w = Inr w"
| "encode_loop encode save_every n (b # bs) w =
     (case loop_body encode save_every n b w of
        Inl e \<Rightarrow> Inl e
      | Inr w1 \<Rightarrow> encode_loop encode save_every (Suc n) bs w1)"

definition start :: "(string \<Rightarrow> json_record list option) \<Rightarrow> world" where
  "start output_dir = \<lparr>cur_file = None, handles = [], disk = output_dir\<rparr>"

definition encode_captioned_dataset ::
  "('img list \<Rightarrow> py_error + int list list) \<Rightarrow> 'img batch list
   \<Rightarrow> (string \<Rightarrow> json_record list option) \<Rightarrow> int \<Rightarrow> (py_error \<times> world) + world" where
  "encode_captioned_dataset encode dl output_dir save_every =
     encode_loop encode save_every 0 dl (start output_dir)"

text \<open>The world in which a run ended, whichever way it ended.\<close>

definition final_world :: "(py_error \<times> world) + world \<Rightarrow> world" where
  "final_world r = (case r of Inl (e, w) \<Rightarrow> w | Inr w \<Rightarrow> w)"

text \<open>The handles still open, by file name.\<close>

definition open_files :: "world \<Rightarrow> string list" where
  "open_files w = map fst (filter snd (handles w))"

text \<open>The files the run created, in the order of creation, and what they hold.\<close>

definition split_files :: "world \<Rightarrow> string list" where
  "split_files w = map fst (handles w)"

definition content :: "world \<Rightarrow> string \<Rightarrow> json_record list" where
  "content w name = (case disk w name of None \<Rightarrow> [] | Some recs \<Rightarrow> recs)"

text \<open>
  The record lists of the batches the encoder has turned into records, up to the
  first batch on which it fails.
\<close>

fun encoded_batches :: "('img list \<Rightarrow> py_error + int list list) \<Rightarrow> 'img batch list \<Rightarrow> json_record list list" where
  "encoded_batches encode [] = []"
| "encoded_batches encode (b # bs) =
     (case encode_batch encode b of
        Inl e \<Rightarrow> []
      | Inr batch_df \<Rightarrow> batch_df # encoded_batches encode bs)"



section \<open>Notions used in the statements\<close>

text \<open>Words joined with a separator after each of them.\<close>

definition join_words :: "string \<Rightarrow> string list \<Rightarrow> string" where
  "join_words separator ws = concat (map (\<lambda>w. w @ separator) ws)"

text \<open>The number a string of lowercase hexadecimal digits stands for.\<close>

definition hex_digit_val :: "char \<Rightarrow> nat" where
  "hex_digit_val c = (let k = of_char c :: nat in if k \<le> 57 then k - 48 else k - 87)"

definition hex_value :: "string \<Rightarrow> nat" where
  "hex_value s = foldl (\<lambda>a c. 16 * a + hex_digit_val c) 0 s"

text \<open>
  The state of the split writer once the rotation test has run for \<open>N\<close> batches and
  the record lists \<open>rs\<close> have been appended, for a rotation period \<open>s\<close> and an output
  directory that was \<open>d0\<close> at the start: the splits \<open>0\<close> to \<open>(N - 1) div s\<close> have been
  created in this order, only the last handle is open, split \<open>j\<close> holds the record
  lists \<open>j * s\<close> to \<open>j * s + s - 1\<close>, and every other file is as it was.
\<close>

definition writer_inv ::
  "nat \<Rightarrow> (string \<Rightarrow> json_record list option) \<Rightarrow> nat \<Rightarrow> json_record list list \<Rightarrow> world \<Rightarrow> bool" where
  "writer_inv s d0 N rs w =
     (if N = 0 then w = start d0
      else cur_file w = Some ((N - 1) div s)
         \<and> handles w = map (\<lambda>j. (split_name (int j), j = (N - 1) div s)) [0..<Suc ((N - 1) div s)]
         \<and> (\<forall>j \<le> (N - 1) div s.
               disk w (split_name (int j)) = Some (concat (take s (drop (j * s) rs))))
         \<and> (\<forall>name. (\<forall>j \<le> (N - 1) div s. name \<noteq> split_name (int j)) \<longrightarrow> disk w name = d0 name))"


section \<open>A small run\<close>

text \<open>
  Five items, one item per batch, a new file every two batches; the encoder of the
  example gives each image the one token that is its number.
\<close>

definition example_encode :: "nat list \<Rightarrow> py_error + int list list" where
  "example_encode imgs = Inr (map (\<lambda>i. [int i]) imgs)"

definition example_item :: "nat \<Rightarrow> nat dataset_item" where
  "example_item i =
     \<lparr>item_key = ''k'' @ py_str (int i), title_clean = '' a photo'', description_clean = ''of it '',
      img = i\<rparr>"

definition example_dataset :: "nat dataset_item list" where
  "example_dataset = map example_item [0, 1, 2, 3, 4]"

definition example_record :: "nat \<Rightarrow> json_record" where
  "example_record i =
     \<lparr>key = ''k'' @ py_str (int i), caption = ''a photo. of it'',
      encoding = ''['' @ py_str (int i) @ '']''\<rparr>"

definition example_batch :: "nat \<Rightarrow> nat batch" where
  "example_batch i =
     \<lparr>keys = [''k'' @ py_str (int i)], images = [i], captions = [''a photo. of it'']\<rparr>"

definition example_dl :: "nat batch list" where
  "example_dl = map example_batch [0, 1, 2, 3, 4]"

text \<open>An output directory that a previous, longer run has filled.\<close>

definition example_old_dir :: "string \<Rightarrow> json_record list option" where
  "example_old_dir =
     [''split_00000.jsonl'' \<mapsto> [example_record 4, example_record 4, example_record 4],
      ''split_0000a.jsonl'' \<mapsto> [example_record 3]]"

text \<open>An encoder that fails on every batch.\<close>

definition failing_encode :: "nat list \<Rightarrow> py_error + int list list" where
  "failing_encode imgs = Inl EncoderError"

text \<open>Six prepared items for two devices with two items each.\<close>

definition example_prepared :: "nat prepared_item list" where
  "example_prepared = map (prepare_item id) (map example_item [0, 1, 2, 3, 4, 5])"

text \<open>The five items of the small run in batches of two items on one device.\<close>

definition example_pairs :: "nat batch list" where
  "example_pairs = dataloader 2 1 (map (prepare_item id) example_dataset)"

text \<open>
  Twelve prepared items in three shards for two loader workers, and the batches of four
  in the order in which the two workers deliver them in turn.
\<close>

definition example_prepare :: "nat list \<Rightarrow> nat prepared_item list" where
  "example_prepare ns = map (\<lambda>i. prepare_item id (example_item i)) ns"

definition example_shards :: "nat prepared_item list list" where
  "example_shards = map example_prepare [[0, 1, 2], [6, 7, 8, 9, 10, 11], [3, 4, 5]]"

definition example_out :: "nat batch list" where
  "example_out = map (\<lambda>ns. collate (example_prepare ns)) [[0, 1, 2, 3], [6, 7, 8, 9], [4, 5], [10, 11]]"


subsection \<open>What trimming does\<close>

lemma isspace_space: "isspace CHR '' ''"
  by (simp add: isspace_def)

lemma rstrip_Nil: "rstrip [] = []"
  by (simp add: rstrip_def)

lemma rstrip_snoc: "rstrip (s @ [c]) = (if isspace c then rstrip s else s @ [c])"
  by (simp add: rstrip_def)

lemma rstrip_last: "rstrip s \<noteq> [] \<Longrightarrow> \<not> isspace (last (rstrip s))"
  by (induction s rule: rev_induct) (auto simp: rstrip_Nil rstrip_snoc split: if_splits)

lemma rstrip_hd: "rstrip s \<noteq> [] \<Longrightarrow> hd (rstrip s) = hd s"
proof (induction s rule: rev_induct)
  case Nil
  then show ?case by (simp add: rstrip_Nil)
next
  case (snoc c s)
  show ?case
  proof (cases "isspace c")
    case True
    with snoc have ne: "rstrip s \<noteq> []" and eq: "hd (rstrip s) = hd s"
      by (simp_all add: rstrip_snoc)
    from ne have "s \<noteq> []" by (auto simp: rstrip_Nil)
    with eq True show ?thesis by (simp add: rstrip_snoc)
  next
    case False
    then show ?thesis by (simp add: rstrip_snoc)
  qed
qed

lemma rstrip_suffix: "\<exists>r. s = rstrip s @ r \<and> (\<forall>c \<in> set r. isspace c)"
proof (induction s rule: rev_induct)
  case Nil
  show ?case by (simp add: rstrip_Nil)
next
  case (snoc c s)
  then obtain r where r: "s = rstrip s @ r" "\<forall>c \<in> set r. isspace c" by blast
  show ?case
  proof (cases "isspace c")
    case True
    have "s @ [c] = rstrip (s @ [c]) @ (r @ [c])"
      using r(1) True by (simp add: rstrip_snoc)
    moreover have "\<forall>d \<in> set (r @ [c]). isspace d"
      using r(2) True by simp
    ultimately show ?thesis by blast
  next
    case False
    then show ?thesis by (simp add: rstrip_snoc)
  qed
qed

lemma lstrip_hd: "lstrip s \<noteq> [] \<Longrightarrow> \<not> isspace (hd (lstrip s))"
  unfolding lstrip_def by (metis hd_dropWhile)

lemma lstrip_prefix: "\<exists>l. s = l @ lstrip s \<and> (\<forall>c \<in> set l. isspace c)"
proof -
  have "s = takeWhile isspace s @ lstrip s"
    by (simp add: lstrip_def)
  moreover have "\<forall>c \<in> set (takeWhile isspace s). isspace c"
    by (metis set_takeWhileD)
  ultimately show ?thesis by blast
qed

lemma strip_hd: "strip s \<noteq> [] \<Longrightarrow> \<not> isspace (hd (strip s))"
proof -
  assume ne: "strip s \<noteq> []"
  then have "hd (strip s) = hd (lstrip s)"
    unfolding strip_def by (rule rstrip_hd)
  moreover have "lstrip s \<noteq> []"
    using ne by (auto simp: strip_def rstrip_Nil)
  ultimately show ?thesis by (simp add: lstrip_hd)
qed

lemma strip_last: "strip s \<noteq> [] \<Longrightarrow> \<not> isspace (last (strip s))"
  unfolding strip_def by (rule rstrip_last)

lemma strip_middle:
  "\<exists>l r. s = l @ strip s @ r \<and> (\<forall>c \<in> set l. isspace c) \<and> (\<forall>c \<in> set r. isspace c)"
proof -
  obtain l where l: "s = l @ lstrip s" "\<forall>c \<in> set l. isspace c"
    using lstrip_prefix by blast
  obtain r where r: "lstrip s = rstrip (lstrip s) @ r" "\<forall>c \<in> set r. isspace c"
    using rstrip_suffix by blast
  have "s = l @ strip s @ r"
    using l(1) r(1) by (simp add: strip_def)
  with l(2) r(2) show ?thesis by blast
qed

text \<open>
  Claim C3. For every title and description, \<^const>\<open>create_caption\<close> returns the trimmed
  title, with a period appended exactly when the trimmed title is not empty and its
  last character is none of \<^verbatim>\<open>.\<close>, \<^verbatim>\<open>!\<close>, \<^verbatim>\<open>?\<close>, then one space, then the trimmed
  description (also when the trimmed description is empty). The trimmed strings
  start and end with no whitespace, so the joining space is the only one between them.
\<close>

theorem create_caption_spec:
  "create_caption title description =
     (if strip title \<noteq> [] \<and> last (strip title) \<notin> {CHR ''.'', CHR ''!'', CHR ''?''}
      then strip title @ ''.'' else strip title) @ '' '' @ strip description
   \<and> (strip title \<noteq> [] \<longrightarrow> \<not> isspace (last (strip title)))
   \<and> (strip description \<noteq> [] \<longrightarrow> \<not> isspace (hd (strip description)))"
proof -
  have idx: "strip title \<noteq> [] \<Longrightarrow> strip title ! (length (strip title) - 1) = last (strip title)"
    by (simp add: last_conv_nth)
  have "create_caption title description =
     (if strip title \<noteq> [] \<and> last (strip title) \<notin> {CHR ''.'', CHR ''!'', CHR ''?''}
      then strip title @ ''.'' else strip title) @ '' '' @ strip description"
    using idx by (auto simp: create_caption_def py_in_def Let_def)
  then show ?thesis
    using strip_last [of title] strip_hd [of description] by blast
qed

theorem create_caption_spec_witness:
  "create_caption ''  hello world '' '' a scene'' = ''hello world. a scene''
   \<and> create_caption ''Done!'' '''' = ''Done! ''
   \<and> create_caption '' '' ''x'' = '' x''"
proof -
  have s1: "strip ''  hello world '' = ''hello world''"
    by (simp add: strip_def lstrip_def rstrip_def isspace_def)
  have s2: "strip '' a scene'' = ''a scene''"
    by (simp add: strip_def lstrip_def rstrip_def isspace_def)
  have s3: "strip ''Done!'' = ''Done!''"
    by (simp add: strip_def lstrip_def rstrip_def isspace_def)
  have s4: "strip '''' = ''''"
    by (simp add: strip_def lstrip_def rstrip_def isspace_def)
  have s5: "strip '' '' = ''''"
    by (simp add: strip_def lstrip_def rstrip_def isspace_def)
  have s6: "strip ''x'' = ''x''"
    by (simp add: strip_def lstrip_def rstrip_def isspace_def)
  show ?thesis
    using create_caption_spec [of "''  hello world ''" "'' a scene''"]
      create_caption_spec [of "''Done!''" "''''"]
      create_caption_spec [of "'' ''" "''x''"]
    by (simp add: s1 s2 s3 s4 s5 s6)
qed



section \<open>File names\<close>

lemma lt16_cases: "d < 16 \<Longrightarrow> d \<in> {0, 1, 2, 3, 4, 5, 6, 7, 8, 9, 10, 11, 12, 13, 14, 15::nat}"
  by simp arith

lemma hex_digit_val_digit_char: "d < 16 \<Longrightarrow> hex_digit_val (digit_char d) = d"
  by (drule lt16_cases) (auto simp: hex_digit_val_def digit_char_def)

lemma digit_char_hex: "d < 16 \<Longrightarrow> digit_char d \<in> set ''0123456789abcdef''"
  by (drule lt16_cases) (auto simp: digit_char_def)

lemma hex_value_snoc: "hex_value (s @ [c]) = 16 * hex_value s + hex_digit_val c"
  by (simp add: hex_value_def)

lemma hex_value_hex_digits: "hex_value (hex_digits n) = n"
proof (induction n rule: hex_digits.induct)
  case (1 n)
  show ?case
  proof (cases "n < 16")
    case True
    then show ?thesis
      by (simp add: hex_digits.simps [of n] hex_value_def hex_digit_val_digit_char)
  next
    case False
    have m: "n mod 16 < 16" by simp
    have "hex_value (hex_digits n) = 16 * hex_value (hex_digits (n div 16)) + hex_digit_val (digit_char (n mod 16))"
      using False by (simp add: hex_digits.simps [of n] hex_value_snoc)
    also have "\<dots> = 16 * (n div 16) + n mod 16"
      using 1 False hex_digit_val_digit_char [OF m] by simp
    finally show ?thesis by simp
  qed
qed

lemma hex_digits_chars: "set (hex_digits n) \<subseteq> set ''0123456789abcdef''"
proof (induction n rule: hex_digits.induct)
  case (1 n)
  show ?case
  proof (cases "n < 16")
    case True
    then show ?thesis
      using digit_char_hex [of n] by (simp add: hex_digits.simps [of n])
  next
    case False
    have m: "n mod 16 < 16" by simp
    have "set (hex_digits n) = set (hex_digits (n div 16)) \<union> {digit_char (n mod 16)}"
      using False by (simp add: hex_digits.simps [of n])
    then show ?thesis
      using 1 False digit_char_hex [OF m] by auto
  qed
qed

lemma hex_digits_length: "0 < k \<Longrightarrow> n < 16 ^ k \<Longrightarrow> length (hex_digits n) \<le> k"
proof (induction k arbitrary: n)
  case 0
  then show ?case by simp
next
  case (Suc k)
  show ?case
  proof (cases "n < 16")
    case True
    then show ?thesis by (simp add: hex_digits.simps [of n])
  next
    case False
    then have k: "0 < k" using Suc.prems by (cases k) auto
    have "n div 16 < 16 ^ k"
      using Suc.prems by (simp add: less_mult_imp_div_less mult.commute)
    then have "length (hex_digits (n div 16)) \<le> k"
      using Suc.IH k by blast
    then show ?thesis using False by (simp add: hex_digits.simps [of n])
  qed
qed

lemma hex_value_zeros: "hex_value (replicate k CHR ''0'' @ s) = hex_value s"
proof (induction k)
  case 0
  show ?case by simp
next
  case (Suc k)
  have "hex_value (replicate (Suc k) CHR ''0'' @ s)
        = foldl (\<lambda>a c. 16 * a + hex_digit_val c) (16 * 0 + hex_digit_val CHR ''0'') (replicate k CHR ''0'' @ s)"
    by (simp add: hex_value_def)
  also have "16 * 0 + hex_digit_val CHR ''0'' = 0"
    by (simp add: hex_digit_val_def)
  finally show ?case using Suc by (simp add: hex_value_def)
qed

lemma hex_value_format: "0 \<le> x \<Longrightarrow> hex_value (format_05x x) = nat x"
  by (simp add: format_05x_def zero_pad_def hex_value_zeros hex_value_hex_digits)

lemma split_name_inject: "split_name (int i) = split_name (int j) \<Longrightarrow> i = j"
proof -
  assume "split_name (int i) = split_name (int j)"
  then have "format_05x (int i) = format_05x (int j)"
    by (simp add: split_name_def)
  then have "hex_value (format_05x (int i)) = hex_value (format_05x (int j))"
    by simp
  then show ?thesis by (simp add: hex_value_format)
qed

lemma split_name_distinct: "distinct (map (\<lambda>j. split_name (int j)) [0..<k])"
  by (simp add: distinct_map inj_on_def) (metis split_name_inject)

section \<open>Decimal numerals and their reader\<close>

lemma lt10_cases: "d < 10 \<Longrightarrow> d \<in> {0, 1, 2, 3, 4, 5, 6, 7, 8, 9::nat}"
  by auto

lemma digit_val_digit_char: "d < 10 \<Longrightarrow> digit_val (digit_char d) = Some d"
  by (drule lt10_cases) (auto simp: digit_val_def digit_char_def)

lemma digit_char_plain:
  "d < 10 \<Longrightarrow> \<not> isspace (digit_char d) \<and> digit_char d \<noteq> CHR '','' \<and> digit_char d \<noteq> CHR ''-''
     \<and> digit_char d \<noteq> newline"
  by (drule lt10_cases) (auto simp: digit_char_def isspace_def newline_def)

lemma parse_digits_append:
  "parse_digits acc (s @ t) = (case parse_digits acc s of None \<Rightarrow> None | Some a \<Rightarrow> parse_digits a t)"
  by (induction s arbitrary: acc) (auto split: option.splits)

lemma parse_digits_dec: "parse_digits 0 (dec_digits n) = Some n"
proof (induction n rule: dec_digits.induct)
  case (1 n)
  show ?case
  proof (cases "n < 10")
    case True
    then show ?thesis by (simp add: dec_digits.simps [of n] digit_val_digit_char)
  next
    case False
    have m: "n mod 10 < 10" by simp
    have "dec_digits n = dec_digits (n div 10) @ [digit_char (n mod 10)]"
      using False by (simp add: dec_digits.simps [of n])
    then have "parse_digits 0 (dec_digits n) = parse_digits (n div 10) [digit_char (n mod 10)]"
      using 1 False by (simp add: parse_digits_append)
    also have "\<dots> = Some (10 * (n div 10) + n mod 10)"
      using digit_val_digit_char [OF m] by simp
    finally show ?thesis by simp
  qed
qed

lemma dec_digits_ne: "dec_digits n \<noteq> []"
  by (subst dec_digits.simps) simp

lemma dec_digits_chars: "c \<in> set (dec_digits n) \<Longrightarrow> \<exists>d < 10. c = digit_char d"
proof (induction n rule: dec_digits.induct)
  case (1 n)
  show ?case
  proof (cases "n < 10")
    case True
    with 1(2) show ?thesis by (auto simp: dec_digits.simps [of n])
  next
    case False
    have m: "n mod 10 < 10" by simp
    from 1(2) False have "c \<in> set (dec_digits (n div 10)) \<or> c = digit_char (n mod 10)"
      by (subst (asm) dec_digits.simps) auto
    then show ?thesis using 1(1) False m by blast
  qed
qed

lemma dec_digits_length: "0 < k \<Longrightarrow> n < 10 ^ k \<Longrightarrow> length (dec_digits n) \<le> k"
proof (induction k arbitrary: n)
  case 0
  then show ?case by simp
next
  case (Suc k)
  show ?case
  proof (cases "n < 10")
    case True
    then show ?thesis using Suc.prems by (simp add: dec_digits.simps [of n])
  next
    case False
    then have k: "0 < k" using Suc.prems by (cases k) auto
    have "n div 10 < 10 ^ k" using Suc.prems by (simp add: less_mult_imp_div_less mult.commute)
    then have "length (dec_digits (n div 10)) \<le> k" using Suc.IH k by blast
    then show ?thesis using False by (subst dec_digits.simps) simp
  qed
qed

lemma py_str_chars:
  "c \<in> set (py_str x) \<Longrightarrow> \<not> isspace c \<and> c \<noteq> CHR '','' \<and> c \<noteq> newline"
proof -
  assume "c \<in> set (py_str x)"
  then have "c = CHR ''-'' \<or> (\<exists>d < 10. c = digit_char d)"
    by (auto simp: py_str_def dest: dec_digits_chars split: if_splits)
  then show ?thesis
    using digit_char_plain by (auto simp: isspace_def newline_def)
qed

lemma py_str_ne: "py_str x \<noteq> []"
  by (simp add: py_str_def dec_digits_ne)

lemma parse_nat_dec: "parse_nat (dec_digits n) = Some n"
  by (simp add: parse_nat_def dec_digits_ne parse_digits_dec)

lemma hd_dec_digits: "hd (dec_digits n) \<noteq> CHR ''-''"
proof -
  have "hd (dec_digits n) \<in> set (dec_digits n)"
    by (simp add: dec_digits_ne)
  then obtain d where "d < 10" "hd (dec_digits n) = digit_char d"
    using dec_digits_chars by blast
  then show ?thesis using digit_char_plain by simp
qed

lemma parse_int_py_str: "parse_int (py_str x) = Some x"
proof (cases "x < 0")
  case True
  then show ?thesis by (simp add: parse_int_def py_str_def parse_nat_dec)
next
  case False
  obtain c r where cr: "dec_digits (nat x) = c # r"
    using dec_digits_ne by (cases "dec_digits (nat x)") auto
  then have "c \<noteq> CHR ''-''" using hd_dec_digits [of "nat x"] by simp
  then have "parse_int (dec_digits (nat x)) = map_option int (parse_nat (dec_digits (nat x)))"
    using cr by (simp add: parse_int_def)
  then show ?thesis using False by (simp add: py_str_def parse_nat_dec)
qed

lemma int32_width: "- (2 ^ 31) \<le> x \<Longrightarrow> x < 2 ^ 31 \<Longrightarrow> length (py_str x) \<le> 11"
proof -
  assume a: "- (2 ^ 31) \<le> x" "x < 2 ^ 31"
  have "nat \<bar>x\<bar> < 10 ^ 10" using a by simp
  then have "length (dec_digits (nat \<bar>x\<bar>)) \<le> 10"
    by (intro dec_digits_length) simp_all
  then show ?thesis by (auto simp: py_str_def abs_if split: if_splits)
qed

section \<open>Trimming and splitting around the numerals\<close>

lemma strip_no_space: "\<forall>c \<in> set s. \<not> isspace c \<Longrightarrow> strip s = s"
proof -
  assume a: "\<forall>c \<in> set s. \<not> isspace c"
  then have l: "lstrip s = s"
    by (cases s) (simp_all add: lstrip_def)
  have "rstrip s = s"
  proof (cases s rule: rev_cases)
    case Nil
    then show ?thesis by (simp add: rstrip_Nil)
  next
    case (snoc t c)
    with a show ?thesis by (simp add: rstrip_snoc)
  qed
  with l show ?thesis by (simp add: strip_def)
qed

lemma strip_py_str: "strip (py_str x) = py_str x"
  by (rule strip_no_space) (simp add: py_str_chars)

lemma strip_ne: "s \<noteq> [] \<Longrightarrow> \<not> isspace (last s) \<Longrightarrow> strip s \<noteq> []"
proof -
  assume ne: "s \<noteq> []" and l: "\<not> isspace (last s)"
  have s: "s = takeWhile isspace s @ lstrip s"
    by (simp add: lstrip_def)
  have "last s \<in> set s" using ne by simp
  with l have lne: "lstrip s \<noteq> []"
    by (auto simp: lstrip_def dropWhile_eq_Nil_conv)
  then have "last (lstrip s) = last s"
    using s by (metis last_appendR)
  with l lne have "rstrip (lstrip s) = lstrip s"
    by (cases "lstrip s" rule: rev_cases) (simp_all add: rstrip_snoc)
  with lne show ?thesis by (simp add: strip_def)
qed

lemma split_on_plain: "c \<notin> set u \<Longrightarrow> split_on c (u @ c # rest) = u # split_on c rest"
  by (induction u) (auto split: list.splits)

lemma split_on_single: "c \<notin> set u \<Longrightarrow> split_on c u = [u]"
  by (induction u) (auto split: list.splits)

lemma split_on_join:
  "\<forall>w \<in> set (ws @ [u]). c \<notin> set w \<Longrightarrow> split_on c (join_words [c] ws @ u) = ws @ [u]"
  by (induction ws) (simp_all add: join_words_def split_on_single split_on_plain)

lemma sequence_option_map:
  "\<forall>x \<in> set xs. f (g x) = Some x \<Longrightarrow> sequence_option (map f (map g xs)) = Some xs"
  by (induction xs) simp_all

section \<open>The printer on a line that fits\<close>

lemma extendLine_fits:
  "length line + length word \<le> w \<Longrightarrow> extendLine s line word w ind = (s, line @ word)"
  by (simp add: extendLine_def)

lemma extend_words_fits:
  "length line + length (join_words separator ws) \<le> w \<Longrightarrow>
   extend_words separator w ind ws (s, line) = (s, line @ join_words separator ws)"
proof (induction ws arbitrary: line)
  case Nil
  then show ?case by (simp add: join_words_def)
next
  case (Cons word ws)
  have j: "join_words separator (word # ws) = word @ separator @ join_words separator ws"
    by (simp add: join_words_def)
  have "extendLine s line word w ind = (s, line @ word)"
    using Cons.prems by (simp add: extendLine_fits j)
  moreover have "extend_words separator w ind ws (s, (line @ word) @ separator)
      = (s, ((line @ word) @ separator) @ join_words separator ws)"
    using Cons.prems by (intro Cons.IH) (simp add: j)
  ultimately show ?case by (simp add: j)
qed

lemma length_join_words:
  "\<forall>w \<in> set ws. length w \<le> k \<Longrightarrow> length (join_words separator ws) \<le> length ws * (k + length separator)"
  by (induction ws) (auto simp: join_words_def)

lemma rstrip_comma: "rstrip '','' = '',''"
  by (simp add: rstrip_def isspace_def)

lemma array2string_plain:
  assumes len: "0 < length a" "length a \<le> 1000"
    and width: "\<forall>x \<in> set a. length (py_str x) \<le> 11"
  shows "array2string a = ''['' @ join_words '','' (map py_str (butlast a)) @ py_str (last a) @ '']''"
proof -
  let ?ws = "map py_str (butlast a)"
  have ne: "a \<noteq> []" using len by auto
  have "\<forall>w \<in> set ?ws. length w \<le> 11"
    using width by (auto dest: in_set_butlastD)
  then have "length (join_words '','' ?ws) \<le> length ?ws * (11 + length '','')"
    by (rule length_join_words)
  then have j: "length (join_words '','' ?ws) \<le> 11988"
    using len by simp
  have l: "length (py_str (last a)) \<le> 11"
    using width ne by simp
  have w1: "extend_words '','' 49999 '' '' ?ws ([], '' '') = ([], '' '' @ join_words '','' ?ws)"
    using j by (intro extend_words_fits) simp
  have w2: "extendLine [] (CHR '' '' # join_words '','' ?ws) (py_str (last a)) 49999 '' ''
            = ([], (CHR '' '' # join_words '','' ?ws) @ py_str (last a))"
    using j l by (intro extendLine_fits) simp
  show ?thesis
    using len by (simp add: array2string_def formatArray_def Let_def rstrip_comma w1 w2)
qed

text \<open>
  Claim C4. A token sequence of at most 1000 elements of the array's element type
  (32-bit integers) is printed on one line, and reading the printed string gives the
  sequence back: the same values in the same order. The model named in the notebooks,
  \<^verbatim>\<open>vqgan_f16_16384\<close> on 256 by 256 images, yields 256 tokens below 16384 per image.
\<close>

theorem encoding_round_trip:
  assumes "length toks \<le> 1000"
    and "\<forall>t \<in> set toks. - (2 ^ 31) \<le> t \<and> t < 2 ^ 31"
  shows "parse_encoding (array2string toks) = Some toks \<and> newline \<notin> set (array2string toks)"
proof (cases "toks = []")
  case True
  then show ?thesis
    by (simp add: array2string_def parse_encoding_def strip_def lstrip_def rstrip_def newline_def)
next
  case False
  let ?ws = "map py_str (butlast toks)"
  let ?inner = "join_words '','' ?ws @ py_str (last toks)"
  have width: "\<forall>x \<in> set toks. length (py_str x) \<le> 11"
    using assms(2) int32_width by blast
  have form: "array2string toks = ''['' @ ?inner @ '']''"
    using array2string_plain [OF _ assms(1) width] False by simp
  have toks: "butlast toks @ [last toks] = toks"
    using False by simp
  have nocomma: "\<forall>w \<in> set (?ws @ [py_str (last toks)]). CHR '','' \<notin> set w"
    using py_str_chars by auto
  have "split_on CHR '','' ?inner = ?ws @ [py_str (last toks)]"
    using nocomma by (rule split_on_join)
  also have "\<dots> = map py_str (butlast toks @ [last toks])"
    by simp
  finally have split: "split_on CHR '','' ?inner = map py_str toks"
    using toks by simp
  have "?inner \<noteq> []" "\<not> isspace (last ?inner)"
    using py_str_ne [of "last toks"] py_str_chars [of "last (py_str (last toks))" "last toks"]
    by simp_all
  then have sne: "strip ?inner \<noteq> []" by (rule strip_ne)
  have seq: "sequence_option (map (\<lambda>w. parse_int (strip w)) (map py_str toks)) = Some toks"
    by (rule sequence_option_map) (simp add: strip_py_str parse_int_py_str)
  have inner: "butlast (tl (array2string toks)) = ?inner"
    by (simp add: form butlast_append)
  have ends: "length (array2string toks) \<ge> 2" "hd (array2string toks) = CHR ''[''"
    "last (array2string toks) = CHR '']''"
    by (simp_all add: form)
  have parse: "parse_encoding (array2string toks) = Some toks"
    unfolding parse_encoding_def Let_def inner using ends sne seq split by simp
  have "set ?inner \<subseteq> (\<Union>x \<in> set toks. set (py_str x)) \<union> {CHR '',''}"
    using False by (auto simp: join_words_def dest: in_set_butlastD)
  moreover have "newline \<noteq> CHR '',''"
    by (simp add: newline_def)
  ultimately have "newline \<in> set ?inner \<Longrightarrow> \<exists>x. newline \<in> set (py_str x)"
    by blast
  then have "newline \<notin> set ?inner"
    using py_str_chars by blast
  then have "newline \<notin> set (array2string toks)"
    by (simp add: form newline_def)
  with parse show ?thesis by simp
qed

lemma py_str_1: "py_str 1 = ''1''"
  by (simp add: py_str_def dec_digits.simps digit_char_def)

lemma py_str_22: "py_str 22 = ''22''"
  by (simp add: py_str_def dec_digits.simps digit_char_def)

lemma py_str_16383: "py_str 16383 = ''16383''"
  by (simp add: py_str_def dec_digits.simps digit_char_def)

lemma array2string_example: "array2string [1, 22, 16383] = ''[1,22,16383]''"
  by (simp add: array2string_plain py_str_1 py_str_22 py_str_16383 join_words_def)

theorem encoding_round_trip_witness:
  "length [1, 22, 16383 :: int] \<le> 1000
   \<and> array2string [1, 22, 16383] = ''[1,22,16383]''
   \<and> parse_encoding ''[1,22,16383]'' = Some [1, 22, 16383]
   \<and> newline \<notin> set ''[1,22,16383]''"
  using encoding_round_trip [of "[1, 22, 16383]"]
  by (simp add: array2string_example)

text \<open>
  Above numpy's threshold of 1000 elements the printer keeps only the first and the
  last three elements, and the printed string no longer reads back.
\<close>

lemma replicate_3: "replicate 3 x = [x, x, x]"
  by (simp add: numeral_eq_Suc)

lemma py_str_7: "py_str 7 = ''7''"
  by (simp add: py_str_def dec_digits.simps digit_char_def)

lemma summary_leading:
  "extend_words '','' 49999 '' '' [''7'', ''7'', ''7''] ([], '' '') = ([], '' 7,7,7,'')"
  using extend_words_fits [of "'' ''" "'',''" "[''7'', ''7'', ''7'']" 49999 "'' ''" "[]"]
  by (simp add: join_words_def)

lemma summary_dots: "extendLine [] '' 7,7,7,'' ''...'' 49999 '' '' = ([], '' 7,7,7,...'')"
  using extendLine_fits [of "'' 7,7,7,''" "''...''" 49999 "[]" "'' ''"] by simp

lemma summary_trailing:
  "extend_words '','' 49999 '' '' [''7'', ''7''] ([], '' 7,7,7,...,'') = ([], '' 7,7,7,...,7,7,'')"
  using extend_words_fits [of "'' 7,7,7,...,''" "'',''" "[''7'', ''7'']" 49999 "'' ''" "[]"]
  by (simp add: join_words_def)

lemma summary_last:
  "extendLine [] '' 7,7,7,...,7,7,'' ''7'' 49999 '' '' = ([], '' 7,7,7,...,7,7,7'')"
  using extendLine_fits [of "'' 7,7,7,...,7,7,''" "''7''" 49999 "[]" "'' ''"] by simp

lemma array2string_summarised:
  "array2string (replicate 1001 7) = ''[7,7,7,...,7,7,7]''"
  unfolding array2string_def formatArray_def Let_def
  by (simp add: rstrip_comma replicate_3 py_str_7 summary_leading summary_dots summary_trailing
      summary_last del: extend_words.simps)

lemma summarised_not_read_back: "parse_encoding ''[7,7,7,...,7,7,7]'' = None"
  by (simp add: parse_encoding_def strip_def lstrip_def rstrip_def isspace_def parse_int_def
      parse_nat_def digit_val_def)

section \<open>The split writer's invariant\<close>

lemma div_rotation:
  fixes n s :: nat
  assumes s: "0 < s" and n: "0 < n" and m: "n mod s = 0"
  shows "n div s = Suc ((n - 1) div s)"
proof -
  obtain q where q: "n = s * q" using m by (auto simp: mod_eq_0_iff_dvd)
  with n obtain p where p: "q = Suc p" by (cases q) auto
  have "n - 1 = s * p + (s - 1)" using q p s by simp
  moreover have "(s * p + (s - 1)) div s = p + (s - 1) div s"
    using s by (subst div_mult_self4) simp_all
  moreover have "(s - 1) div s = 0" using s by simp
  ultimately have "(n - 1) div s = p" by simp
  moreover have "n div s = q" using q s by simp
  ultimately show ?thesis using p by simp
qed

lemma div_no_rotation:
  fixes n s :: nat
  assumes s: "0 < s" and m: "n mod s \<noteq> 0"
  shows "n div s = (n - 1) div s"
proof -
  let ?q = "n div s" and ?r = "n mod s"
  have "n = s * ?q + ?r" by simp
  then have "n - 1 = s * ?q + (?r - 1)" using m by linarith
  moreover have "(s * ?q + (?r - 1)) div s = ?q + (?r - 1) div s"
    using s by (subst div_mult_self4) simp_all
  moreover have "?r - 1 < s" using s by (simp add: less_imp_diff_less)
  ultimately show ?thesis by simp
qed

lemma take_drop_full:
  "j * s + s \<le> length rs \<Longrightarrow> take s (drop (j * s) (rs @ x)) = take s (drop (j * s) rs)"
  by simp

lemma take_drop_last:
  "k * s \<le> length rs \<Longrightarrow> length rs < k * s + s \<Longrightarrow>
   take s (drop (k * s) (rs @ [r])) = take s (drop (k * s) rs) @ [r]"
  by simp

lemma writer_inv_start: "writer_inv s d0 0 [] (start d0)"
  by (simp add: writer_inv_def)

lemma rotate_inv:
  assumes s: "0 < s" and inv: "writer_inv s d0 n rs w" and len: "length rs = n"
  shows "\<exists>w1. rotate (int s) n w = Inr w1 \<and> writer_inv s d0 (Suc n) rs w1"
proof (cases "n mod s = 0")
  case False
  then have n: "0 < n" by (cases n) auto
  have k: "n div s = (n - 1) div s" using s False by (rule div_no_rotation)
  have "int n mod int s \<noteq> 0"
    using False by (metis of_nat_mod of_nat_eq_0_iff)
  then have "rotate (int s) n w = Inr w"
    using s by (simp add: rotate_def)
  moreover have "writer_inv s d0 (Suc n) rs w"
    using inv n k by (simp add: writer_inv_def)
  ultimately show ?thesis by blast
next
  case True
  have m: "int n mod int s = 0"
    using True by (metis of_nat_mod of_nat_0)
  have d: "int n div int s = int (n div s)"
    by (simp add: zdiv_int)
  show ?thesis
  proof (cases "n = 0")
    case True
    then have w: "w = start d0" using inv by (simp add: writer_inv_def)
    have "rotate (int s) n w = Inr (open_w (split_name 0) (start d0))"
      using s True w by (simp add: rotate_def start_def)
    moreover have "writer_inv s d0 (Suc n) rs (open_w (split_name 0) (start d0))"
      using True len by (simp add: writer_inv_def open_w_def start_def)
    ultimately show ?thesis by blast
  next
    case False
    then have n: "0 < n" by simp
    let ?k = "(n - 1) div s"
    have k: "n div s = Suc ?k" using s n True by (rule div_rotation)
    have ks: "Suc ?k * s = n"
      using True k by (metis div_mult_mod_eq add.right_neutral)
    from inv n have cf: "cur_file w = Some ?k"
      and hs: "handles w = map (\<lambda>j. (split_name (int j), j = ?k)) [0..<Suc ?k]"
      and dk: "\<forall>j \<le> ?k. disk w (split_name (int j)) = Some (concat (take s (drop (j * s) rs)))"
      and other: "\<forall>name. (\<forall>j \<le> ?k. name \<noteq> split_name (int j)) \<longrightarrow> disk w name = d0 name"
      by (simp_all add: writer_inv_def)
    let ?w0 = "close_handle ?k w"
    let ?w1 = "open_w (split_name (int (Suc ?k))) ?w0"
    have rot: "rotate (int s) n w = Inr ?w1"
      using s m d k cf by (simp add: rotate_def del: of_nat_Suc)
    have closed: "handles ?w0 = map (\<lambda>j. (split_name (int j), False)) [0..<Suc ?k]"
      unfolding close_handle_def hs
      by (rule nth_equalityI) (auto simp: nth_list_update simp del: upt_Suc)
    have h1: "handles ?w1 = map (\<lambda>j. (split_name (int j), j = Suc ?k)) [0..<Suc (Suc ?k)]"
      using closed by (simp add: open_w_def del: of_nat_Suc)
    have c1: "cur_file ?w1 = Some (Suc ?k)"
      using closed by (simp add: open_w_def del: of_nat_Suc)
    have disk1: "disk ?w1 = (disk w)(split_name (int (Suc ?k)) \<mapsto> [])"
      by (simp add: open_w_def close_handle_def del: of_nat_Suc)
    have d1: "disk ?w1 (split_name (int j)) = Some (concat (take s (drop (j * s) rs)))"
      if j: "j \<le> Suc ?k" for j
    proof (cases "j = Suc ?k")
      case True
      then show ?thesis using disk1 ks len by (simp del: of_nat_Suc)
    next
      case False
      then have "split_name (int j) \<noteq> split_name (int (Suc ?k))"
        using split_name_inject by blast
      moreover have "j \<le> ?k" using j False by simp
      ultimately show ?thesis using disk1 dk by (simp del: of_nat_Suc)
    qed
    have o1: "disk ?w1 name = d0 name" if nm: "\<forall>j \<le> Suc ?k. name \<noteq> split_name (int j)" for name
    proof -
      from nm have "name \<noteq> split_name (int (Suc ?k))" by blast
      moreover from nm have "\<forall>j \<le> ?k. name \<noteq> split_name (int j)" by auto
      ultimately show ?thesis using disk1 other by (simp del: of_nat_Suc)
    qed
    have "writer_inv s d0 (Suc n) rs ?w1"
      unfolding writer_inv_def using k c1 h1 d1 o1 by (simp del: of_nat_Suc upt_Suc)
    with rot show ?thesis by blast
  qed
qed

lemma append_inv:
  assumes s: "0 < s" and inv: "writer_inv s d0 (Suc n) rs w1" and len: "length rs = n"
  shows "\<exists>w2. to_json (cur_file w1) r w1 = Inr w2 \<and> writer_inv s d0 (Suc n) (rs @ [r]) w2"
proof -
  let ?k = "n div s"
  from inv have cf: "cur_file w1 = Some ?k"
    and hs: "handles w1 = map (\<lambda>j. (split_name (int j), j = ?k)) [0..<Suc ?k]"
    and dk: "\<forall>j \<le> ?k. disk w1 (split_name (int j)) = Some (concat (take s (drop (j * s) rs)))"
    and other: "\<forall>name. (\<forall>j \<le> ?k. name \<noteq> split_name (int j)) \<longrightarrow> disk w1 name = d0 name"
    by (simp_all add: writer_inv_def)
  have hk: "handles w1 ! ?k = (split_name (int ?k), True)"
    unfolding hs by (simp add: nth_append)
  have lk: "?k < length (handles w1)"
    unfolding hs by simp
  let ?old = "concat (take s (drop (?k * s) rs))"
  let ?w2 = "w1\<lparr>disk := (disk w1)(split_name (int ?k) \<mapsto> ?old @ r)\<rparr>"
  have wr: "to_json (cur_file w1) r w1 = Inr ?w2"
    using cf hk lk dk by (simp add: to_json_def)
  have ks: "?k * s \<le> n" by simp
  have kl: "n < ?k * s + s"
    using s by (metis add.commute dividend_less_div_times mult.commute)
  have d2: "disk ?w2 (split_name (int j)) = Some (concat (take s (drop (j * s) (rs @ [r]))))"
    if j: "j \<le> ?k" for j
  proof (cases "j = ?k")
    case True
    have eq: "take s (drop (?k * s) (rs @ [r])) = take s (drop (?k * s) rs) @ [r]"
      using ks kl len by (intro take_drop_last) simp_all
    have c: "concat (take s (drop (?k * s) (rs @ [r]))) = ?old @ r"
      unfolding eq by simp
    show ?thesis unfolding True c by simp
  next
    case False
    then have "Suc j \<le> ?k" using j by simp
    then have "Suc j * s \<le> ?k * s" by (rule mult_le_mono1)
    then have "Suc j * s \<le> n" using ks by (rule order_trans)
    then have "j * s + s \<le> length rs" using len by (simp add: add.commute)
    then have eq: "take s (drop (j * s) (rs @ [r])) = take s (drop (j * s) rs)"
      by (rule take_drop_full)
    have "split_name (int j) \<noteq> split_name (int ?k)"
      using False split_name_inject by blast
    then have "disk ?w2 (split_name (int j)) = disk w1 (split_name (int j))"
      by simp
    also have "\<dots> = Some (concat (take s (drop (j * s) rs)))"
      using dk j by blast
    finally show ?thesis by (simp only: eq)
  qed
  have o2: "disk ?w2 name = d0 name" if nm: "\<forall>j \<le> ?k. name \<noteq> split_name (int j)" for name
    using other nm by simp
  have "writer_inv s d0 (Suc n) (rs @ [r]) ?w2"
    unfolding writer_inv_def using cf hs d2 o2 by simp
  with wr show ?thesis by blast
qed

section \<open>The loop keeps the invariant\<close>

lemma loop_inv:
  assumes s: "0 < s"
  shows "writer_inv s d0 n rs w \<Longrightarrow> length rs = n \<Longrightarrow>
     (length (encoded_batches enc bs) = length bs \<longrightarrow>
        (\<exists>wf. encode_loop enc (int s) n bs w = Inr wf
             \<and> writer_inv s d0 (n + length bs) (rs @ encoded_batches enc bs) wf))
     \<and> (length (encoded_batches enc bs) \<noteq> length bs \<longrightarrow>
        (\<exists>e wf. encode_loop enc (int s) n bs w = Inl (e, wf)
             \<and> writer_inv s d0 (Suc (n + length (encoded_batches enc bs)))
                  (rs @ encoded_batches enc bs) wf))"
proof (induction bs arbitrary: n rs w)
  case Nil
  then show ?case by simp
next
  case (Cons b bs)
  obtain w1 where w1: "rotate (int s) n w = Inr w1" "writer_inv s d0 (Suc n) rs w1"
    using rotate_inv [OF s Cons.prems] by blast
  show ?case
  proof (cases "encode_batch enc b")
    case (Inl e)
    then have "encode_loop enc (int s) n (b # bs) w = Inl (e, w1)"
      using w1(1) by (simp add: loop_body_def)
    then show ?thesis using Inl w1(2) by simp
  next
    case (Inr r)
    obtain w2 where w2: "to_json (cur_file w1) r w1 = Inr w2"
        "writer_inv s d0 (Suc n) (rs @ [r]) w2"
      using append_inv [OF s w1(2) Cons.prems(2)] by blast
    have step: "encode_loop enc (int s) n (b # bs) w = encode_loop enc (int s) (Suc n) bs w2"
      using w1(1) Inr w2(1) by (simp add: loop_body_def)
    have len: "length (rs @ [r]) = Suc n"
      using Cons.prems(2) by simp
    have eb: "encoded_batches enc (b # bs) = r # encoded_batches enc bs"
      using Inr by simp
    show ?thesis
      using Cons.IH [OF w2(2) len] unfolding step eb by simp
  qed
qed

lemma run_inv:
  assumes s: "0 < s"
  shows "(length (encoded_batches enc dl) = length dl \<longrightarrow>
        (\<exists>wf. encode_captioned_dataset enc dl d0 (int s) = Inr wf
             \<and> writer_inv s d0 (length dl) (encoded_batches enc dl) wf))
     \<and> (length (encoded_batches enc dl) \<noteq> length dl \<longrightarrow>
        (\<exists>e wf. encode_captioned_dataset enc dl d0 (int s) = Inl (e, wf)
             \<and> writer_inv s d0 (Suc (length (encoded_batches enc dl))) (encoded_batches enc dl) wf))"
  using loop_inv [OF s writer_inv_start, of enc dl d0]
  by (simp add: encode_captioned_dataset_def)

lemma length_encoded_batches: "length (encoded_batches enc dl) \<le> length dl"
  by (induction dl) (auto split: sum.splits)

text \<open>
  Every run ends in a world that satisfies the invariant for the batches it encoded.
  The rotation test has run for all batches when all were encoded, and for one batch
  more than were encoded when the encoder failed.
\<close>

lemma final_inv:
  assumes s: "0 < s"
  shows "writer_inv s d0 (min (length dl) (Suc (length (encoded_batches enc dl))))
           (encoded_batches enc dl) (final_world (encode_captioned_dataset enc dl d0 (int s)))"
proof (cases "length (encoded_batches enc dl) = length dl")
  case True
  then obtain wf where "encode_captioned_dataset enc dl d0 (int s) = Inr wf"
      "writer_inv s d0 (length dl) (encoded_batches enc dl) wf"
    using run_inv [OF s, of enc dl d0] by auto
  then show ?thesis using True by (simp add: final_world_def)
next
  case False
  then obtain e wf where "encode_captioned_dataset enc dl d0 (int s) = Inl (e, wf)"
      "writer_inv s d0 (Suc (length (encoded_batches enc dl))) (encoded_batches enc dl) wf"
    using run_inv [OF s, of enc dl d0] by auto
  moreover have "Suc (length (encoded_batches enc dl)) \<le> length dl"
    using False length_encoded_batches [of enc dl] by simp
  ultimately show ?thesis by (simp add: final_world_def min_def)
qed

lemma encoded_batches_take:
  "n \<le> length (encoded_batches enc dl) \<Longrightarrow>
   encoded_batches enc (take n dl) = take n (encoded_batches enc dl)"
proof (induction dl arbitrary: n)
  case Nil
  then show ?case by simp
next
  case (Cons b dl)
  show ?case
  proof (cases n)
    case 0
    then show ?thesis by simp
  next
    case (Suc m)
    with Cons.prems obtain r where r: "encode_batch enc b = Inr r"
      by (cases "encode_batch enc b") auto
    with Cons.prems Suc have "m \<le> length (encoded_batches enc dl)" by simp
    then show ?thesis using Cons.IH r Suc by simp
  qed
qed

lemma encode_batch_nth:
  "n < length (encoded_batches enc dl) \<Longrightarrow>
   encode_batch enc (dl ! n) = Inr (encoded_batches enc dl ! n)"
proof (induction dl arbitrary: n)
  case Nil
  then show ?case by simp
next
  case (Cons b dl)
  then obtain r where r: "encode_batch enc b = Inr r"
    by (cases "encode_batch enc b") auto
  show ?case
  proof (cases n)
    case 0
    then show ?thesis using r by simp
  next
    case (Suc m)
    with Cons.prems r have "m < length (encoded_batches enc dl)" by simp
    then show ?thesis using Cons.IH r Suc by simp
  qed
qed

lemma encode_loop_snoc:
  "encode_loop enc se n (bs @ [b]) w =
     (case encode_loop enc se n bs w of
        Inl e \<Rightarrow> Inl e
      | Inr w1 \<Rightarrow> loop_body enc se (n + length bs) b w1)"
  by (induction bs arbitrary: n w) (auto split: sum.splits)

text \<open>The state in which iteration \<open>n\<close> of the loop starts, when the run gets that far.\<close>

lemma prefix_inv:
  assumes s: "0 < s" and n: "n \<le> length (encoded_batches enc dl)"
  shows "\<exists>w. encode_captioned_dataset enc (take n dl) d0 (int s) = Inr w
           \<and> writer_inv s d0 n (take n (encoded_batches enc dl)) w"
proof -
  have le: "n \<le> length dl"
    using n length_encoded_batches [of enc dl] by simp
  have eb: "encoded_batches enc (take n dl) = take n (encoded_batches enc dl)"
    using n by (rule encoded_batches_take)
  have "length (encoded_batches enc (take n dl)) = length (take n dl)"
    using n le by (simp add: eb)
  then show ?thesis
    using run_inv [OF s, of enc "take n dl" d0] le eb by auto
qed

lemma append_step:
  assumes s: "0 < s" and inv: "writer_inv s d0 (Suc n) rs w1"
  shows "to_json (cur_file w1) r w1
         = Inr (w1\<lparr>disk := (disk w1)(split_name (int (n div s)) \<mapsto>
                   content w1 (split_name (int (n div s))) @ r)\<rparr>)"
proof -
  let ?k = "n div s"
  from inv have cf: "cur_file w1 = Some ?k"
    and hs: "handles w1 = map (\<lambda>j. (split_name (int j), j = ?k)) [0..<Suc ?k]"
    and dk: "\<forall>j \<le> ?k. disk w1 (split_name (int j)) = Some (concat (take s (drop (j * s) rs)))"
    by (simp_all add: writer_inv_def)
  have hk: "handles w1 ! ?k = (split_name (int ?k), True)"
    unfolding hs by (simp add: nth_append)
  have lk: "?k < length (handles w1)"
    unfolding hs by simp
  show ?thesis
    using cf hk lk dk by (simp add: to_json_def content_def)
qed

section \<open>What the invariant says about the files\<close>

lemma inv_split_files:
  "writer_inv s d0 N rs w \<Longrightarrow> 0 < N \<Longrightarrow>
   split_files w = map (\<lambda>j. split_name (int j)) [0..<Suc ((N - 1) div s)]"
  by (simp add: writer_inv_def split_files_def comp_def del: upt_Suc)

lemma inv_split_files_zero: "writer_inv s d0 0 rs w \<Longrightarrow> split_files w = [] \<and> disk w = d0"
  by (simp add: writer_inv_def split_files_def start_def)

lemma inv_open_files:
  assumes "writer_inv s d0 N rs w" "0 < N"
  shows "open_files w = [split_name (int ((N - 1) div s))]"
proof -
  let ?k = "(N - 1) div s"
  have hs: "handles w = map (\<lambda>j. (split_name (int j), j = ?k)) [0..<Suc ?k]"
    using assms by (simp add: writer_inv_def)
  have "filter snd (map (\<lambda>j. (split_name (int j), j = ?k)) [0..<?k]) = []"
    by (simp add: filter_empty_conv)
  then show ?thesis
    by (simp add: open_files_def hs)
qed

lemma inv_content:
  "writer_inv s d0 N rs w \<Longrightarrow> 0 < N \<Longrightarrow> j \<le> (N - 1) div s \<Longrightarrow>
   disk w (split_name (int j)) = Some (concat (take s (drop (j * s) rs)))"
  by (simp add: writer_inv_def)

lemma inv_other:
  "writer_inv s d0 N rs w \<Longrightarrow> name \<notin> set (split_files w) \<Longrightarrow> disk w name = d0 name"
proof (cases "N = 0")
  case True
  assume "writer_inv s d0 N rs w"
  with True show ?thesis by (simp add: writer_inv_def start_def)
next
  case False
  assume inv: "writer_inv s d0 N rs w" and nm: "name \<notin> set (split_files w)"
  have "split_files w = map (\<lambda>j. split_name (int j)) [0..<Suc ((N - 1) div s)]"
    using inv False by (intro inv_split_files) simp_all
  then have "\<forall>j \<le> (N - 1) div s. name \<noteq> split_name (int j)"
    using nm by (auto simp del: upt_Suc)
  then show ?thesis using inv False by (simp add: writer_inv_def)
qed

lemma concat_chunks:
  "concat (map (\<lambda>j. concat (take s (drop (j * s) rs))) [0..<K]) = concat (take (K * s) rs)"
proof (induction K)
  case 0
  show ?case by simp
next
  case (Suc K)
  have "Suc K * s = K * s + s" by simp
  then have "take (Suc K * s) rs = take (K * s) rs @ take s (drop (K * s) rs)"
    by (simp only: take_add)
  then show ?case using Suc by simp
qed

lemma inv_concat:
  assumes inv: "writer_inv s d0 N rs w" and s: "0 < s" and len: "length rs \<le> N"
  shows "concat (map (content w) (split_files w)) = concat rs"
proof (cases "N = 0")
  case True
  then show ?thesis using inv len by (simp add: writer_inv_def split_files_def start_def)
next
  case False
  let ?k = "(N - 1) div s"
  have sf: "split_files w = map (\<lambda>j. split_name (int j)) [0..<Suc ?k]"
    using inv False by (intro inv_split_files) simp_all
  have c: "content w (split_name (int j)) = concat (take s (drop (j * s) rs))" if "j \<le> ?k" for j
    using inv_content [OF inv _ that] False by (simp add: content_def)
  have "map (content w) (split_files w) = map (\<lambda>j. concat (take s (drop (j * s) rs))) [0..<Suc ?k]"
    unfolding sf by (simp add: c del: upt_Suc)
  then have "concat (map (content w) (split_files w)) = concat (take (Suc ?k * s) rs)"
    by (simp only: concat_chunks)
  moreover have "N - 1 < Suc ?k * s"
    using s by (metis dividend_less_div_times mult.commute mult_Suc add.commute)
  then have "length rs \<le> Suc ?k * s" using len False by linarith
  ultimately show ?thesis by simp
qed

lemma inv_distinct: "writer_inv s d0 N rs w \<Longrightarrow> distinct (split_files w)"
proof (cases "N = 0")
  case True
  assume "writer_inv s d0 N rs w"
  with True show ?thesis by (simp add: writer_inv_def split_files_def start_def)
next
  case False
  assume "writer_inv s d0 N rs w"
  then have "split_files w = map (\<lambda>j. split_name (int j)) [0..<Suc ((N - 1) div s)]"
    using False by (intro inv_split_files) simp_all
  then show ?thesis by (simp only: split_name_distinct)
qed

section \<open>Evaluating the small run\<close>

lemma replicate_4: "replicate 4 c = [c, c, c, c]"
  by (simp add: numeral_eq_Suc)

lemma split_name_0: "split_name 0 = ''split_00000.jsonl''"
  by (simp add: split_name_def format_05x_def zero_pad_def hex_digits.simps digit_char_def replicate_4)

lemma split_name_1: "split_name 1 = ''split_00001.jsonl''"
  by (simp add: split_name_def format_05x_def zero_pad_def hex_digits.simps digit_char_def replicate_4)

lemma split_name_2: "split_name 2 = ''split_00002.jsonl''"
  by (simp add: split_name_def format_05x_def zero_pad_def hex_digits.simps digit_char_def replicate_4)

lemma array2string_single:
  "- (2 ^ 31) \<le> x \<Longrightarrow> x < 2 ^ 31 \<Longrightarrow> array2string [x] = ''['' @ py_str x @ '']''"
  using array2string_plain [of "[x]"] int32_width [of x] by (simp add: join_words_def)

lemma example_caption: "create_caption '' a photo'' ''of it '' = ''a photo. of it''"
  by (simp add: create_caption_def strip_def lstrip_def rstrip_def isspace_def py_in_def)


lemma example_encode_batch:
  "i < 5 \<Longrightarrow> encode_batch example_encode (example_batch i) = Inr [example_record i]"
  by (simp add: encode_batch_def example_encode_def from_dict_def example_record_def
      example_batch_def array2string_single)

lemma example_encoded:
  "encoded_batches example_encode example_dl
   = [[example_record 0], [example_record 1], [example_record 2], [example_record 3],
      [example_record 4]]"
  by (simp add: example_dl_def example_encode_batch)

lemma example_loop:
  "\<exists>w. encode_captioned_dataset example_encode example_dl d0 2 = Inr w
     \<and> handles w = [(''split_00000.jsonl'', False), (''split_00001.jsonl'', False),
                     (''split_00002.jsonl'', True)]
     \<and> cur_file w = Some 2
     \<and> disk w = d0(''split_00000.jsonl'' \<mapsto> [example_record 0, example_record 1],
                   ''split_00001.jsonl'' \<mapsto> [example_record 2, example_record 3],
                   ''split_00002.jsonl'' \<mapsto> [example_record 4])"
  unfolding encode_captioned_dataset_def example_dl_def
  by (simp add: loop_body_def rotate_def example_encode_batch to_json_def open_w_def
      close_handle_def start_def split_name_0 split_name_1 split_name_2 Let_def)

text \<open>The same run, read off its final world.\<close>

lemma example_final:
  "split_files (final_world (encode_captioned_dataset example_encode example_dl d0 2))
     = [''split_00000.jsonl'', ''split_00001.jsonl'', ''split_00002.jsonl'']"
  "open_files (final_world (encode_captioned_dataset example_encode example_dl d0 2))
     = [''split_00002.jsonl'']"
  "content (final_world (encode_captioned_dataset example_encode example_dl d0 2)) ''split_00000.jsonl''
     = [example_record 0, example_record 1]"
  "content (final_world (encode_captioned_dataset example_encode example_dl d0 2)) ''split_00001.jsonl''
     = [example_record 2, example_record 3]"
  "content (final_world (encode_captioned_dataset example_encode example_dl d0 2)) ''split_00002.jsonl''
     = [example_record 4]"
  using example_loop [of d0]
  by (auto simp: final_world_def split_files_def open_files_def content_def)

section \<open>Records reach the split files once and in order\<close>

lemma from_dict_fields:
  "from_dict ks cs es = Inr r \<Longrightarrow> map key r = ks \<and> map caption r = cs \<and> map encoding r = es"
proof -
  assume a: "from_dict ks cs es = Inr r"
  then have len: "length ks = length cs" "length cs = length es"
    by (auto simp: from_dict_def split: if_splits)
  have r: "r = map (\<lambda>(k, c, e). \<lparr>key = k, caption = c, encoding = e\<rparr>) (zip ks (zip cs es))"
    using a len by (simp add: from_dict_def)
  from len show ?thesis
    unfolding r by (induction ks cs es rule: list_induct3) simp_all
qed

lemma encode_batch_fields:
  assumes "encode_batch enc b = Inr r"
  shows "map key r = keys b \<and> map caption r = captions b
     \<and> (\<exists>toks. enc (images b) = Inr toks \<and> map encoding r = map array2string toks)"
proof -
  from assms obtain toks where t: "enc (images b) = Inr toks"
    by (cases "enc (images b)") (auto simp: encode_batch_def)
  with assms have "from_dict (keys b) (captions b) (map array2string toks) = Inr r"
    by (simp add: encode_batch_def)
  then show ?thesis using t from_dict_fields by blast
qed

lemma encoded_keys:
  "map key (concat (encoded_batches enc dl))
     = concat (map keys (take (length (encoded_batches enc dl)) dl))
   \<and> map caption (concat (encoded_batches enc dl))
     = concat (map captions (take (length (encoded_batches enc dl)) dl))"
proof (induction dl)
  case Nil
  show ?case by simp
next
  case (Cons b dl)
  show ?case
  proof (cases "encode_batch enc b")
    case (Inl e)
    then show ?thesis by simp
  next
    case (Inr r)
    then show ?thesis using Cons encode_batch_fields [OF Inr] by simp
  qed
qed

lemma from_dict_rows:
  assumes "from_dict ks cs es = Inr r"
  shows "length ks = length es \<and> length cs = length es \<and> length r = length es
     \<and> (\<forall>p < length es. r ! p = \<lparr>key = ks ! p, caption = cs ! p, encoding = es ! p\<rparr>)"
proof -
  have len: "length ks = length cs" "length cs = length es"
    using assms by (auto simp: from_dict_def split: if_splits)
  have r: "r = map (\<lambda>(k, c, e). \<lparr>key = k, caption = c, encoding = e\<rparr>) (zip ks (zip cs es))"
    using assms len by (simp add: from_dict_def)
  show ?thesis
    unfolding r using len by simp
qed

lemma encode_batch_rows:
  assumes "encode_batch enc b = Inr r"
  shows "\<exists>toks. enc (images b) = Inr toks
     \<and> length (keys b) = length toks \<and> length (captions b) = length toks
     \<and> length r = length toks
     \<and> (\<forall>p < length toks.
           r ! p = \<lparr>key = keys b ! p, caption = captions b ! p,
                    encoding = array2string (toks ! p)\<rparr>)"
proof -
  from assms obtain toks where t: "enc (images b) = Inr toks"
    by (cases "enc (images b)") (auto simp: encode_batch_def)
  with assms have "from_dict (keys b) (captions b) (map array2string toks) = Inr r"
    by (simp add: encode_batch_def)
  from from_dict_rows [OF this] t show ?thesis
    by (intro exI [of _ toks]) simp
qed

lemma encoded_batches_stop:
  "length (encoded_batches enc dl) < length dl \<Longrightarrow>
   \<exists>e. encode_batch enc (dl ! length (encoded_batches enc dl)) = Inl e"
proof (induction dl)
  case Nil
  then show ?case by simp
next
  case (Cons b dl)
  show ?case
  proof (cases "encode_batch enc b")
    case (Inl e)
    then show ?thesis by simp
  next
    case (Inr r)
    then show ?thesis using Cons by simp
  qed
qed

text \<open>
  Claim C1. In every run with a rotation period of at least 1, whether it returns or
  stops at a failing batch, the split files read in the order of their creation hold
  exactly the records of the encoded batches, batch after batch and in the order of
  the batch: nothing is dropped, repeated or moved. The file names are pairwise
  different, so each record is in one file only; file \<open>j\<close> holds the record lists of
  the batches \<open>j * save_every\<close> onwards, at most \<open>save_every\<close> of them. The encoded
  batches are the batches before the first one that fails. For each of them the
  encoder has returned one token sequence for each key and caption, and the record
  at position \<open>p\<close> of the batch is made of the key at position \<open>p\<close>, the caption at
  position \<open>p\<close> and the rendering of the token sequence at position \<open>p\<close>.
\<close>

theorem records_written_once_in_order:
  assumes "1 \<le> save_every"
    and "w = final_world (encode_captioned_dataset enc dl d0 save_every)"
    and "eb = encoded_batches enc dl"
  shows "concat (map (content w) (split_files w)) = concat eb
     \<and> distinct (split_files w)
     \<and> (\<forall>j < length (split_files w).
          content w (split_files w ! j)
            = concat (take (nat save_every) (drop (j * nat save_every) eb)))
     \<and> map key (concat eb) = concat (map keys (take (length eb) dl))
     \<and> map caption (concat eb) = concat (map captions (take (length eb) dl))
     \<and> length eb \<le> length dl
     \<and> (length eb < length dl \<longrightarrow> (\<exists>e. encode_batch enc (dl ! length eb) = Inl e))
     \<and> (\<forall>i < length eb. \<exists>toks.
          enc (images (dl ! i)) = Inr toks
        \<and> length (keys (dl ! i)) = length toks \<and> length (captions (dl ! i)) = length toks
        \<and> length (eb ! i) = length toks
        \<and> (\<forall>p < length toks.
              eb ! i ! p = \<lparr>key = keys (dl ! i) ! p, caption = captions (dl ! i) ! p,
                            encoding = array2string (toks ! p)\<rparr>))"
proof -
  let ?s = "nat save_every"
  let ?N = "min (length dl) (Suc (length eb))"
  have s: "0 < ?s" and se: "int ?s = save_every"
    using assms(1) by simp_all
  have inv: "writer_inv ?s d0 ?N eb w"
    using final_inv [OF s, of d0 dl enc] by (simp only: se assms(2,3))
  have len: "length eb \<le> ?N"
    using length_encoded_batches [of enc dl] by (simp add: assms(3))
  have a: "concat (map (content w) (split_files w)) = concat eb"
    using inv s len by (rule inv_concat)
  have b: "distinct (split_files w)"
    using inv by (rule inv_distinct)
  have c: "content w (split_files w ! j) = concat (take ?s (drop (j * ?s) eb))"
    if j: "j < length (split_files w)" for j
  proof (cases "?N = 0")
    case True
    then have "split_files w = []"
      using inv inv_split_files_zero by metis
    with j show ?thesis by simp
  next
    case False
    then have N: "0 < ?N" by simp
    have sf: "split_files w = map (\<lambda>j. split_name (int j)) [0..<Suc ((?N - 1) div ?s)]"
      using inv N by (rule inv_split_files)
    have jk: "j \<le> (?N - 1) div ?s"
      using j unfolding sf by simp
    then have nm: "split_files w ! j = split_name (int j)"
      unfolding sf by (simp add: nth_append del: upt_Suc)
    show ?thesis
      unfolding nm content_def using inv_content [OF inv N jk] by simp
  qed
  have d: "length eb \<le> length dl"
    unfolding assms(3) by (rule length_encoded_batches)
  have e: "\<exists>e. encode_batch enc (dl ! length eb) = Inl e" if "length eb < length dl"
    using that unfolding assms(3) by (rule encoded_batches_stop)
  have f: "\<exists>toks. enc (images (dl ! i)) = Inr toks
        \<and> length (keys (dl ! i)) = length toks \<and> length (captions (dl ! i)) = length toks
        \<and> length (eb ! i) = length toks
        \<and> (\<forall>p < length toks.
              eb ! i ! p = \<lparr>key = keys (dl ! i) ! p, caption = captions (dl ! i) ! p,
                            encoding = array2string (toks ! p)\<rparr>)"
    if i: "i < length eb" for i
  proof -
    have "encode_batch enc (dl ! i) = Inr (eb ! i)"
      using i unfolding assms(3) by (rule encode_batch_nth)
    then show ?thesis by (rule encode_batch_rows)
  qed
  have g: "map key (concat eb) = concat (map keys (take (length eb) dl))"
      "map caption (concat eb) = concat (map captions (take (length eb) dl))"
    using encoded_keys [of enc dl] by (simp_all add: assms(3))
  show ?thesis
    using a b c d e f g by blast
qed

lemma example_pairs_batches:
  "example_pairs
   = [\<lparr>keys = [''k'' @ py_str 0, ''k'' @ py_str 1], images = [0, 1],
       captions = [''a photo. of it'', ''a photo. of it'']\<rparr>,
      \<lparr>keys = [''k'' @ py_str 2, ''k'' @ py_str 3], images = [2, 3],
       captions = [''a photo. of it'', ''a photo. of it'']\<rparr>,
      \<lparr>keys = [''k'' @ py_str 4], images = [4], captions = [''a photo. of it'']\<rparr>]"
  by (simp add: example_pairs_def dataloader_def superbatch_size_def batched_def collate_def
      prepare_item_def example_dataset_def example_item_def example_caption)

lemma example_encode_pair:
  "i < 5 \<Longrightarrow> j < 5 \<Longrightarrow>
   encode_batch example_encode
     \<lparr>keys = [''k'' @ py_str (int i), ''k'' @ py_str (int j)], images = [i, j],
      captions = [''a photo. of it'', ''a photo. of it'']\<rparr>
   = Inr [example_record i, example_record j]"
  by (simp add: encode_batch_def example_encode_def from_dict_def example_record_def
      array2string_single)

lemma example_pairs_encoded:
  "encoded_batches example_encode example_pairs
   = [[example_record 0, example_record 1], [example_record 2, example_record 3],
      [example_record 4]]"
  unfolding example_pairs_batches
  using example_encode_pair [of 0 1] example_encode_pair [of 2 3] example_encode_batch [of 4]
  by (simp add: example_batch_def)

lemma example_pairs_final:
  "split_files (final_world (encode_captioned_dataset example_encode example_pairs d0 2))
     = [''split_00000.jsonl'', ''split_00001.jsonl'']"
  "content (final_world (encode_captioned_dataset example_encode example_pairs d0 2))
       ''split_00000.jsonl''
     = [example_record 0, example_record 1, example_record 2, example_record 3]"
  "content (final_world (encode_captioned_dataset example_encode example_pairs d0 2))
       ''split_00001.jsonl''
     = [example_record 4]"
  unfolding example_pairs_batches encode_captioned_dataset_def
  using example_encode_pair [of 0 1] example_encode_pair [of 2 3] example_encode_batch [of 4]
  by (simp_all add: example_batch_def loop_body_def rotate_def to_json_def open_w_def
      close_handle_def start_def split_name_0 split_name_1 Let_def final_world_def
      split_files_def content_def)

lemma example_record_encoding:
  "map encoding [example_record 0, example_record 1, example_record 2, example_record 3,
     example_record 4] = [''[0]'', ''[1]'', ''[2]'', ''[3]'', ''[4]'']"
  by (simp add: example_record_def py_str_def dec_digits.simps digit_char_def)

theorem records_written_once_in_order_witness:
  "(1::int) \<le> 2
   \<and> map images example_pairs = [[0, 1], [2, 3], [4]]
   \<and> encoded_batches example_encode example_pairs
       = [[example_record 0, example_record 1], [example_record 2, example_record 3],
          [example_record 4]]
   \<and> split_files (final_world (encode_captioned_dataset example_encode example_pairs Map.empty 2))
       = [''split_00000.jsonl'', ''split_00001.jsonl'']
   \<and> concat (map (content (final_world (encode_captioned_dataset example_encode example_pairs Map.empty 2)))
        (split_files (final_world (encode_captioned_dataset example_encode example_pairs Map.empty 2))))
       = [example_record 0, example_record 1, example_record 2, example_record 3, example_record 4]
   \<and> content (final_world (encode_captioned_dataset example_encode example_pairs Map.empty 2))
        ''split_00000.jsonl''
       = [example_record 0, example_record 1, example_record 2, example_record 3]
   \<and> map encoding (concat (encoded_batches example_encode example_pairs))
       = [''[0]'', ''[1]'', ''[2]'', ''[3]'', ''[4]'']"
proof -
  let ?w = "final_world (encode_captioned_dataset example_encode example_pairs Map.empty 2)"
  have c0: "(1::int) \<le> 2" by simp
  have c1: "map images example_pairs = [[0, 1], [2, 3], [4]]"
    unfolding example_pairs_batches by simp
  note c2 = example_pairs_encoded
  note c3 = example_pairs_final(1) [of Map.empty]
  have "concat (map (content ?w) (split_files ?w))
      = concat (encoded_batches example_encode example_pairs)"
    using records_written_once_in_order [of 2 ?w example_encode example_pairs Map.empty,
        OF c0 refl refl] by (rule conjunct1)
  then have c4: "concat (map (content ?w) (split_files ?w))
      = [example_record 0, example_record 1, example_record 2, example_record 3, example_record 4]"
    unfolding example_pairs_encoded by simp
  note c5 = example_pairs_final(2) [of Map.empty]
  have c6: "map encoding (concat (encoded_batches example_encode example_pairs))
       = [''[0]'', ''[1]'', ''[2]'', ''[3]'', ''[4]'']"
    unfolding example_pairs_encoded using example_record_encoding by simp
  show ?thesis
    by (intro conjI c0 c1 c2 c3 c4 c5 c6)
qed

section \<open>The rotation rule\<close>

lemma rotate_cases:
  "save_every \<noteq> 0 \<Longrightarrow>
   rotate save_every n w =
     (if int n mod save_every = 0
      then Inr (open_w (split_name (int n div save_every))
                  (case cur_file w of None \<Rightarrow> w | Some h \<Rightarrow> close_handle h w))
      else Inr w)"
  by (simp add: rotate_def Let_def)

lemma iteration:
  assumes s: "0 < s" and n: "n < length (encoded_batches enc dl)"
  shows "\<exists>w w1 w2.
      encode_captioned_dataset enc (take n dl) d0 (int s) = Inr w
    \<and> writer_inv s d0 n (take n (encoded_batches enc dl)) w
    \<and> rotate (int s) n w = Inr w1
    \<and> writer_inv s d0 (Suc n) (take n (encoded_batches enc dl)) w1
    \<and> to_json (cur_file w1) (encoded_batches enc dl ! n) w1 = Inr w2
    \<and> w2 = w1\<lparr>disk := (disk w1)(split_name (int (n div s)) \<mapsto>
               content w1 (split_name (int (n div s))) @ encoded_batches enc dl ! n)\<rparr>
    \<and> encode_captioned_dataset enc (take (Suc n) dl) d0 (int s) = Inr w2"
proof -
  let ?eb = "encoded_batches enc dl"
  have nl: "n < length dl"
    using n length_encoded_batches [of enc dl] by simp
  obtain w where w: "encode_captioned_dataset enc (take n dl) d0 (int s) = Inr w"
      "writer_inv s d0 n (take n ?eb) w"
    using prefix_inv [OF s, of n enc dl d0] n by auto
  have len: "length (take n ?eb) = n" using n by simp
  obtain w1 where w1: "rotate (int s) n w = Inr w1" "writer_inv s d0 (Suc n) (take n ?eb) w1"
    using rotate_inv [OF s w(2) len] by blast
  let ?w2 = "w1\<lparr>disk := (disk w1)(split_name (int (n div s)) \<mapsto>
               content w1 (split_name (int (n div s))) @ ?eb ! n)\<rparr>"
  have w2: "to_json (cur_file w1) (?eb ! n) w1 = Inr ?w2"
    using s w1(2) by (rule append_step)
  have eb: "encode_batch enc (dl ! n) = Inr (?eb ! n)"
    using n by (rule encode_batch_nth)
  have "take (Suc n) dl = take n dl @ [dl ! n]"
    using nl by (rule take_Suc_conv_app_nth)
  then have "encode_captioned_dataset enc (take (Suc n) dl) d0 (int s)
      = loop_body enc (int s) n (dl ! n) w"
    using w(1) nl by (simp add: encode_captioned_dataset_def encode_loop_snoc)
  also have "\<dots> = Inr ?w2"
    using w1(1) eb w2 by (simp add: loop_body_def)
  finally show ?thesis using w w1 w2 by blast
qed

text \<open>
  Claim C2. Let the rotation period be at least 1 and let the run reach and encode
  batch \<open>n\<close>. The rotation test runs once, before the batch is encoded. When
  \<open>n mod save_every = 0\<close> it closes the open file, if there is one, and opens the file
  of split \<open>n div save_every\<close>, which is then empty; otherwise it changes nothing. In
  both cases the only open file is then that of split \<open>n div save_every\<close>, the records
  of batch \<open>n\<close> are appended to it, and no other file changes.
\<close>

theorem rotation_rule:
  assumes "1 \<le> save_every" and "n < length (encoded_batches enc dl)"
  shows "\<exists>w w1 w2.
      encode_captioned_dataset enc (take n dl) d0 save_every = Inr w
    \<and> open_files w = (if n = 0 then [] else [split_name (int (n - 1) div save_every)])
    \<and> rotate save_every n w = Inr w1
    \<and> w1 = (if int n mod save_every = 0
            then open_w (split_name (int n div save_every))
                   (case cur_file w of None \<Rightarrow> w | Some h \<Rightarrow> close_handle h w)
            else w)
    \<and> (int n mod save_every = 0 \<longrightarrow> content w1 (split_name (int n div save_every)) = [])
    \<and> open_files w1 = [split_name (int n div save_every)]
    \<and> to_json (cur_file w1) (encoded_batches enc dl ! n) w1 = Inr w2
    \<and> encode_captioned_dataset enc (take (Suc n) dl) d0 save_every = Inr w2
    \<and> content w2 (split_name (int n div save_every))
        = content w1 (split_name (int n div save_every)) @ encoded_batches enc dl ! n
    \<and> (\<forall>name. name \<noteq> split_name (int n div save_every) \<longrightarrow> disk w2 name = disk w1 name)
    \<and> handles w2 = handles w1"
proof -
  let ?s = "nat save_every"
  let ?eb = "encoded_batches enc dl"
  have s: "0 < ?s" and se: "int ?s = save_every" and ne: "save_every \<noteq> 0"
    using assms(1) by simp_all
  have k: "int n div save_every = int (n div ?s)"
    using se by (metis zdiv_int)
  have k': "int (n - 1) div save_every = int ((n - 1) div ?s)"
    using se by (metis zdiv_int)
  obtain w w1 w2 where
      w: "encode_captioned_dataset enc (take n dl) d0 (int ?s) = Inr w"
      and inv: "writer_inv ?s d0 n (take n ?eb) w"
      and w1: "rotate (int ?s) n w = Inr w1"
      and inv1: "writer_inv ?s d0 (Suc n) (take n ?eb) w1"
      and j: "to_json (cur_file w1) (?eb ! n) w1 = Inr w2"
      and w2: "w2 = w1\<lparr>disk := (disk w1)(split_name (int (n div ?s)) \<mapsto>
                 content w1 (split_name (int (n div ?s))) @ ?eb ! n)\<rparr>"
      and run: "encode_captioned_dataset enc (take (Suc n) dl) d0 (int ?s) = Inr w2"
    using iteration [OF s assms(2), of d0] by blast
  have o: "open_files w = (if n = 0 then [] else [split_name (int (n - 1) div save_every)])"
  proof (cases "n = 0")
    case True
    then show ?thesis using inv by (simp add: writer_inv_def start_def open_files_def)
  next
    case False
    then show ?thesis using inv_open_files [OF inv] unfolding k' by simp
  qed
  have r: "w1 = (if int n mod save_every = 0
            then open_w (split_name (int n div save_every))
                   (case cur_file w of None \<Rightarrow> w | Some h \<Rightarrow> close_handle h w)
            else w)"
  proof -
    have "rotate save_every n w = Inr w1" using w1 unfolding se .
    then show ?thesis using rotate_cases [OF ne, of n w] by (simp split: if_splits)
  qed
  have e: "content w1 (split_name (int n div save_every)) = []" if "int n mod save_every = 0"
    using r that by (simp add: open_w_def content_def)
  have o1: "open_files w1 = [split_name (int n div save_every)]"
    using inv_open_files [OF inv1] by (simp add: k)
  have c2: "content w2 (split_name (int n div save_every))
        = content w1 (split_name (int n div save_every)) @ ?eb ! n"
    unfolding k w2 by (simp add: content_def)
  have f2: "disk w2 name = disk w1 name" if "name \<noteq> split_name (int n div save_every)" for name
    using that unfolding k w2 by simp
  have h2: "handles w2 = handles w1"
    unfolding w2 by simp
  show ?thesis
    using w o w1 r e o1 j run c2 f2 h2 unfolding se by blast
qed

theorem rotation_rule_witness:
  "(1::int) \<le> 2
   \<and> 2 < length (encoded_batches example_encode example_dl)
   \<and> (\<exists>w w1 w2.
         encode_captioned_dataset example_encode (take 2 example_dl) Map.empty 2 = Inr w
       \<and> open_files w = [''split_00000.jsonl'']
       \<and> rotate 2 2 w = Inr w1
       \<and> open_files w1 = [''split_00001.jsonl'']
       \<and> content w1 ''split_00001.jsonl'' = []
       \<and> encode_captioned_dataset example_encode (take 3 example_dl) Map.empty 2 = Inr w2
       \<and> content w2 ''split_00001.jsonl'' = [example_record 2])
   \<and> content (final_world (encode_captioned_dataset example_encode example_dl Map.empty 2))
        ''split_00000.jsonl'' = [example_record 0, example_record 1]
   \<and> content (final_world (encode_captioned_dataset example_encode example_dl Map.empty 2))
        ''split_00001.jsonl'' = [example_record 2, example_record 3]
   \<and> content (final_world (encode_captioned_dataset example_encode example_dl Map.empty 2))
        ''split_00002.jsonl'' = [example_record 4]"
proof -
  have len: "2 < length (encoded_batches example_encode example_dl)"
    by (simp add: example_encoded)
  have nth: "encoded_batches example_encode example_dl ! 2 = [example_record 2]"
    by (simp add: example_encoded)
  have d: "int 2 mod 2 = 0" "int 2 div 2 = 1" "int (2 - 1) div 2 = 0" "Suc 2 = 3"
    by simp_all
  have "\<exists>w w1 w2.
         encode_captioned_dataset example_encode (take 2 example_dl) Map.empty 2 = Inr w
       \<and> open_files w = [''split_00000.jsonl'']
       \<and> rotate 2 2 w = Inr w1
       \<and> open_files w1 = [''split_00001.jsonl'']
       \<and> content w1 ''split_00001.jsonl'' = []
       \<and> encode_captioned_dataset example_encode (take 3 example_dl) Map.empty 2 = Inr w2
       \<and> content w2 ''split_00001.jsonl'' = [example_record 2]"
    using rotation_rule [of 2 2 example_encode example_dl Map.empty, OF _ len]
    unfolding d nth split_name_0 split_name_1 by auto
  then show ?thesis
    using len by (simp add: example_final)
qed

section \<open>The append step always has an open file\<close>

text \<open>
  Claim C10. With a rotation period of at least 1, every iteration of the loop that
  the run reaches appends to an open file: after the rotation test the variable
  \<^verbatim>\<open>file\<close> holds a handle, the handle is open, and the write succeeds and appends to
  the handle's file. In particular the test at batch 0 opens split 0 while
  \<^verbatim>\<open>file\<close> is still \<^verbatim>\<open>None\<close>. With a rotation period of 0 the test of the first batch
  raises \<^verbatim>\<open>ZeroDivisionError\<close> before any file is opened.
\<close>

theorem append_on_open_file:
  assumes "1 \<le> save_every" and "n < length dl" and "n \<le> length (encoded_batches enc dl)"
  shows "(\<exists>w w1 h name.
            encode_captioned_dataset enc (take n dl) d0 save_every = Inr w
          \<and> rotate save_every n w = Inr w1
          \<and> cur_file w1 = Some h \<and> h < length (handles w1) \<and> handles w1 ! h = (name, True)
          \<and> (\<forall>r. \<exists>w2. to_json (cur_file w1) r w1 = Inr w2
                 \<and> content w2 name = content w1 name @ r))
     \<and> cur_file (start d0) = None
     \<and> rotate save_every 0 (start d0) = Inr (open_w (split_name 0) (start d0))
     \<and> encode_captioned_dataset enc dl d0 0 = Inl (ZeroDivisionError, start d0)"
proof -
  let ?s = "nat save_every"
  let ?k = "n div ?s"
  have s: "0 < ?s" and se: "int ?s = save_every" and ne: "save_every \<noteq> 0"
    using assms(1) by simp_all
  obtain w where w: "encode_captioned_dataset enc (take n dl) d0 (int ?s) = Inr w"
      and inv: "writer_inv ?s d0 n (take n (encoded_batches enc dl)) w"
    using prefix_inv [OF s assms(3), of d0] by blast
  have len: "length (take n (encoded_batches enc dl)) = n"
    using assms(3) by simp
  obtain w1 where w1: "rotate (int ?s) n w = Inr w1"
      and inv1: "writer_inv ?s d0 (Suc n) (take n (encoded_batches enc dl)) w1"
    using rotate_inv [OF s inv len] by blast
  from inv1 have cf: "cur_file w1 = Some ?k"
    and hs: "handles w1 = map (\<lambda>j. (split_name (int j), j = ?k)) [0..<Suc ?k]"
    by (simp_all add: writer_inv_def)
  have hk: "handles w1 ! ?k = (split_name (int ?k), True)"
    unfolding hs by (simp add: nth_append)
  have lk: "?k < length (handles w1)"
    unfolding hs by simp
  have wr: "\<exists>w2. to_json (cur_file w1) r w1 = Inr w2
      \<and> content w2 (split_name (int ?k)) = content w1 (split_name (int ?k)) @ r" for r
    using append_step [OF s inv1, of r] by (simp add: content_def)
  have first: "\<exists>w w1 h name.
            encode_captioned_dataset enc (take n dl) d0 save_every = Inr w
          \<and> rotate save_every n w = Inr w1
          \<and> cur_file w1 = Some h \<and> h < length (handles w1) \<and> handles w1 ! h = (name, True)
          \<and> (\<forall>r. \<exists>w2. to_json (cur_file w1) r w1 = Inr w2
                 \<and> content w2 name = content w1 name @ r)"
    using w w1 cf lk hk wr unfolding se by blast
  have zero: "rotate save_every 0 (start d0) = Inr (open_w (split_name 0) (start d0))"
    using ne by (simp add: rotate_def start_def)
  obtain b bs where dl: "dl = b # bs"
    using assms(2) by (cases dl) auto
  have "encode_captioned_dataset enc dl d0 0 = Inl (ZeroDivisionError, start d0)"
    unfolding dl by (simp add: encode_captioned_dataset_def loop_body_def rotate_def)
  with first zero show ?thesis by (simp add: start_def)
qed

theorem append_on_open_file_witness:
  "(1::int) \<le> 2 \<and> 3 < length example_dl \<and> 3 \<le> length (encoded_batches example_encode example_dl)
   \<and> (\<exists>w w1 h name.
          encode_captioned_dataset example_encode (take 3 example_dl) Map.empty 2 = Inr w
        \<and> rotate 2 3 w = Inr w1
        \<and> cur_file w1 = Some h \<and> h < length (handles w1) \<and> handles w1 ! h = (name, True))
   \<and> rotate 2 0 (start Map.empty) = Inr (open_w ''split_00000.jsonl'' (start Map.empty))
   \<and> encode_captioned_dataset example_encode example_dl Map.empty 0
       = Inl (ZeroDivisionError, start Map.empty)"
proof -
  have a: "3 < length example_dl" "3 \<le> length (encoded_batches example_encode example_dl)"
    by (simp_all add: example_encoded) (simp add: example_dl_def)
  show ?thesis
    using append_on_open_file [of 2 3 example_dl example_encode Map.empty, OF _ a] a
    unfolding split_name_0 by auto
qed

section \<open>The handle that is never closed\<close>

text \<open>
  The loop closes a file only when it opens the next one. In every run with at least
  one batch the handle opened last is still open when the function is left, by return
  or by an exception.
\<close>

lemma handle_open_at_exit:
  assumes "1 \<le> save_every" and "dl \<noteq> []"
  shows "\<exists>name. open_files (final_world (encode_captioned_dataset enc dl d0 save_every)) = [name]"
proof -
  let ?s = "nat save_every"
  let ?N = "min (length dl) (Suc (length (encoded_batches enc dl)))"
  have s: "0 < ?s" and se: "int ?s = save_every"
    using assms(1) by simp_all
  have inv: "writer_inv ?s d0 ?N (encoded_batches enc dl)
      (final_world (encode_captioned_dataset enc dl d0 save_every))"
    using final_inv [OF s, of d0 dl enc] by (simp only: se)
  have "0 < ?N" using assms(2) by simp
  with inv show ?thesis using inv_open_files by blast
qed

text \<open>
  Claim C6. The claim is that no split file is open once
  \<^verbatim>\<open>encode_captioned_dataset\<close> has finished, on any exit path. In the small run the
  function returns with the handle of the last split open, and with an encoder that
  fails on the first batch it is left by the exception with the handle of the first
  split open.
\<close>

theorem last_split_left_open:
  "(\<exists>w. encode_captioned_dataset example_encode example_dl Map.empty 2 = Inr w
        \<and> open_files w = [''split_00002.jsonl''])
   \<and> (\<exists>w. encode_captioned_dataset failing_encode example_dl Map.empty 2 = Inl (EncoderError, w)
        \<and> open_files w = [''split_00000.jsonl''])"
proof -
  have "\<exists>w. encode_captioned_dataset example_encode example_dl Map.empty 2 = Inr w
        \<and> open_files w = [''split_00002.jsonl'']"
    using example_loop [of Map.empty] by (auto simp: open_files_def)
  moreover have "\<exists>w. encode_captioned_dataset failing_encode example_dl Map.empty 2
        = Inl (EncoderError, w) \<and> open_files w = [''split_00000.jsonl'']"
    by (simp add: encode_captioned_dataset_def example_dl_def loop_body_def rotate_def
        encode_batch_def failing_encode_def open_w_def start_def open_files_def split_name_0)
  ultimately show ?thesis by blast
qed

section \<open>Opening a split file empties it\<close>

text \<open>
  Claim C9. A split file is opened in mode \<^verbatim>\<open>'w'\<close>, which empties it. With a rotation
  period of at least 1, a run creates pairwise different files, so it opens no file
  twice; what its files hold at the end does not depend on what the output directory
  held before, every other file of the directory is as it was, and the files together
  hold all records of the run.
\<close>

theorem truncation_frame:
  assumes "1 \<le> save_every"
    and "w = final_world (encode_captioned_dataset enc dl d0 save_every)"
    and "w' = final_world (encode_captioned_dataset enc dl Map.empty save_every)"
  shows "(\<forall>name u. disk (open_w name u) name = Some [])
     \<and> split_files w = split_files w'
     \<and> distinct (split_files w)
     \<and> (\<forall>name \<in> set (split_files w). disk w name = disk w' name)
     \<and> (\<forall>name. name \<notin> set (split_files w) \<longrightarrow> disk w name = d0 name)
     \<and> concat (map (content w) (split_files w)) = concat (encoded_batches enc dl)"
proof -
  let ?s = "nat save_every"
  let ?eb = "encoded_batches enc dl"
  let ?N = "min (length dl) (Suc (length ?eb))"
  have s: "0 < ?s" and se: "int ?s = save_every"
    using assms(1) by simp_all
  have inv: "writer_inv ?s d0 ?N ?eb w"
    using final_inv [OF s, of d0 dl enc] by (simp only: se assms(2))
  have inv': "writer_inv ?s Map.empty ?N ?eb w'"
    using final_inv [OF s, of Map.empty dl enc] by (simp only: se assms(3))
  have len: "length ?eb \<le> ?N"
    using length_encoded_batches [of enc dl] by simp
  have a: "disk (open_w name u) name = Some []" for name u
    by (simp add: open_w_def)
  have b: "split_files w = split_files w'"
  proof (cases "?N = 0")
    case True
    then show ?thesis using inv inv' inv_split_files_zero by metis
  next
    case False
    then show ?thesis using inv_split_files [OF inv] inv_split_files [OF inv'] by simp
  qed
  have c: "disk w name = disk w' name" if nm: "name \<in> set (split_files w)" for name
  proof (cases "?N = 0")
    case True
    then have "split_files w = []" using inv inv_split_files_zero by metis
    with nm show ?thesis by simp
  next
    case False
    then have N: "0 < ?N" by simp
    have "split_files w = map (\<lambda>j. split_name (int j)) [0..<Suc ((?N - 1) div ?s)]"
      using inv N by (rule inv_split_files)
    with nm have "\<exists>j. j \<le> (?N - 1) div ?s \<and> name = split_name (int j)"
      by (auto simp del: upt_Suc simp: less_Suc_eq_le)
    then obtain j where j: "j \<le> (?N - 1) div ?s" "name = split_name (int j)"
      by blast
    show ?thesis
      unfolding j(2) using inv_content [OF inv N j(1)] inv_content [OF inv' N j(1)] by simp
  qed
  have d: "disk w name = d0 name" if "name \<notin> set (split_files w)" for name
    using inv that by (rule inv_other)
  have e: "concat (map (content w) (split_files w)) = concat ?eb"
    using inv s len by (rule inv_concat)
  show ?thesis
    using a b c d e inv_distinct [OF inv] by blast
qed

theorem truncation_frame_witness:
  "(1::int) \<le> 2
   \<and> example_old_dir ''split_00000.jsonl'' = Some [example_record 4, example_record 4, example_record 4]
   \<and> disk (final_world (encode_captioned_dataset example_encode example_dl example_old_dir 2))
        ''split_00000.jsonl'' = Some [example_record 0, example_record 1]
   \<and> disk (final_world (encode_captioned_dataset example_encode example_dl Map.empty 2))
        ''split_00000.jsonl'' = Some [example_record 0, example_record 1]
   \<and> split_files (final_world (encode_captioned_dataset example_encode example_dl example_old_dir 2))
        = [''split_00000.jsonl'', ''split_00001.jsonl'', ''split_00002.jsonl'']
   \<and> disk (final_world (encode_captioned_dataset example_encode example_dl example_old_dir 2))
        ''split_0000a.jsonl'' = Some [example_record 3]"
proof -
  have "disk (final_world (encode_captioned_dataset example_encode example_dl d0 2))
        ''split_00000.jsonl'' = Some [example_record 0, example_record 1]" for d0
    using example_loop [of d0] by (auto simp: final_world_def)
  moreover have "disk (final_world (encode_captioned_dataset example_encode example_dl example_old_dir 2))
        ''split_0000a.jsonl'' = Some [example_record 3]"
    using example_loop [of example_old_dir] by (auto simp: final_world_def example_old_dir_def)
  ultimately show ?thesis
    using truncation_frame [of 2 _ example_encode example_dl example_old_dir, OF _ refl refl]
    by (simp add: example_final example_old_dir_def)
qed

section \<open>The names of the split files\<close>

lemma hex_digits_ne: "hex_digits n \<noteq> []"
  by (subst hex_digits.simps) simp

lemma hex_digits_long: "16 ^ k \<le> n \<Longrightarrow> k < length (hex_digits n)"
proof (induction k arbitrary: n)
  case 0
  then show ?case using hex_digits_ne [of n] by simp
next
  case (Suc k)
  have "(16::nat) \<le> 16 * 16 ^ k" by simp
  also have "\<dots> \<le> n" using Suc.prems by simp
  finally have n: "\<not> n < 16" by simp
  have "16 ^ k \<le> n div 16"
    using Suc.prems by (simp add: less_eq_div_iff_mult_less_eq mult.commute)
  then have "k < length (hex_digits (n div 16))"
    by (rule Suc.IH)
  then show ?case using n by (simp add: hex_digits.simps [of n])
qed

lemma format_05x_nat: "format_05x (int j) = zero_pad 5 (hex_digits j)"
  by (simp add: format_05x_def)

lemma zero_pad_chars: "set s \<subseteq> set ''0123456789abcdef'' \<Longrightarrow> set (zero_pad k s) \<subseteq> set ''0123456789abcdef''"
  by (auto simp: zero_pad_def)

text \<open>
  Claim C7, as amended. With a rotation period of at least 1, the \<open>j\<close>-th file a run
  creates is named \<^verbatim>\<open>split_\<close>, the index \<open>j\<close> in lowercase hexadecimal digits padded
  with zeros to at least 5 digits, \<^verbatim>\<open>.jsonl\<close>. The numeral has exactly 5 digits when
  \<open>j < 16 ^ 5\<close> and more than 5 from \<open>16 ^ 5\<close> on.
\<close>

theorem split_file_names:
  assumes "1 \<le> save_every"
    and "w = final_world (encode_captioned_dataset enc dl d0 save_every)"
    and "j < length (split_files w)"
  shows "split_files w ! j = ''split_'' @ format_05x (int j) @ ''.jsonl''
     \<and> format_05x (int j) = zero_pad 5 (hex_digits j)
     \<and> set (format_05x (int j)) \<subseteq> set ''0123456789abcdef''
     \<and> hex_value (format_05x (int j)) = j
     \<and> 5 \<le> length (format_05x (int j))
     \<and> (j < 16 ^ 5 \<longrightarrow> length (format_05x (int j)) = 5)
     \<and> (16 ^ 5 \<le> j \<longrightarrow> 5 < length (format_05x (int j)))"
proof -
  let ?s = "nat save_every"
  let ?N = "min (length dl) (Suc (length (encoded_batches enc dl)))"
  have s: "0 < ?s" and se: "int ?s = save_every"
    using assms(1) by simp_all
  have inv: "writer_inv ?s d0 ?N (encoded_batches enc dl) w"
    using final_inv [OF s, of d0 dl enc] by (simp only: se assms(2))
  have N: "0 < ?N"
  proof (rule ccontr)
    assume "\<not> 0 < ?N"
    then have "split_files w = []" using inv inv_split_files_zero by (metis neq0_conv)
    with assms(3) show False by simp
  qed
  have sf: "split_files w = map (\<lambda>j. split_name (int j)) [0..<Suc ((?N - 1) div ?s)]"
    using inv N by (rule inv_split_files)
  have "j \<le> (?N - 1) div ?s"
    using assms(3) unfolding sf by simp
  then have a: "split_files w ! j = ''split_'' @ format_05x (int j) @ ''.jsonl''"
    unfolding sf by (simp add: nth_append split_name_def del: upt_Suc)
  have b: "set (format_05x (int j)) \<subseteq> set ''0123456789abcdef''"
    unfolding format_05x_nat using hex_digits_chars by (rule zero_pad_chars)
  have c: "hex_value (format_05x (int j)) = j"
    using hex_value_format [of "int j"] by simp
  have d: "5 \<le> length (format_05x (int j))"
    by (simp add: format_05x_nat zero_pad_def)
  have e: "length (format_05x (int j)) = 5" if "j < 16 ^ 5"
  proof -
    have "length (hex_digits j) \<le> 5"
      using that by (intro hex_digits_length) simp_all
    then show ?thesis by (simp add: format_05x_nat zero_pad_def)
  qed
  have f: "5 < length (format_05x (int j))" if "16 ^ 5 \<le> j"
    using hex_digits_long [OF that] by (simp add: format_05x_nat zero_pad_def)
  show ?thesis
    using a b c d e f format_05x_nat by blast
qed

lemma format_05x_2: "format_05x 2 = ''00002''"
  by (simp add: format_05x_def zero_pad_def hex_digits.simps digit_char_def replicate_4)

theorem split_file_names_witness:
  "(1::int) \<le> 2
   \<and> 2 < length (split_files (final_world (encode_captioned_dataset example_encode example_dl Map.empty 2)))
   \<and> split_files (final_world (encode_captioned_dataset example_encode example_dl Map.empty 2)) ! 2
       = ''split_00002.jsonl''
   \<and> format_05x 2 = ''00002''
   \<and> hex_value ''00002'' = 2
   \<and> length ''00002'' = 5"
  using split_file_names [of 2 _ example_encode example_dl Map.empty 2, OF _ refl]
  by (simp add: example_final format_05x_2 format_05x_nat [of 2, simplified, symmetric])

lemma hex_digits_1048576: "hex_digits 1048576 = ''100000''"
  by (simp add: hex_digits.simps digit_char_def)

lemma split_name_1048576: "split_name 1048576 = ''split_100000.jsonl''"
  by (simp add: split_name_def format_05x_def zero_pad_def hex_digits_1048576)

lemma encoded_batches_replicate:
  "encode_batch enc b = Inr r \<Longrightarrow> encoded_batches enc (replicate n b) = replicate n r"
  by (induction n) simp_all

text \<open>
  Against claim C7 as stated: with a rotation period of 1, the file of batch 1048576
  is named with 6 hexadecimal digits.
\<close>

theorem split_name_six_digits:
  "split_files (final_world (encode_captioned_dataset example_encode
       (replicate 1048577 (example_batch 0)) Map.empty 1)) ! 1048576
     = ''split_100000.jsonl''
   \<and> length (format_05x 1048576) = 6"
proof -
  let ?dl = "replicate 1048577 (example_batch 0)"
  let ?w = "final_world (encode_captioned_dataset example_encode ?dl Map.empty 1)"
  have eb: "encoded_batches example_encode ?dl = replicate 1048577 [example_record 0]"
    by (rule encoded_batches_replicate) (simp add: example_encode_batch)
  have "writer_inv 1 Map.empty (min (length ?dl) (Suc (length (encoded_batches example_encode ?dl))))
      (encoded_batches example_encode ?dl) ?w"
    using final_inv [of 1 Map.empty ?dl example_encode] by simp
  then have inv: "writer_inv 1 Map.empty 1048577 (encoded_batches example_encode ?dl) ?w"
    unfolding eb by simp
  have "split_files ?w = map (\<lambda>j. split_name (int j)) [0..<Suc ((1048577 - 1) div 1)]"
    using inv by (rule inv_split_files) simp
  then have "split_files ?w ! 1048576 = split_name (int 1048576)"
    by (simp add: nth_append del: upt_Suc)
  moreover have "length (format_05x 1048576) = 6"
    by (simp add: format_05x_def zero_pad_def hex_digits_1048576)
  ultimately show ?thesis by (simp add: split_name_1048576)
qed

section \<open>Batches\<close>

lemma concat_batched_loop: "concat (batched_loop bs batch data) = batch @ data"
  by (induction data arbitrary: batch) simp_all

lemma batched_loop_full:
  "0 < bs \<Longrightarrow> length batch \<le> bs \<Longrightarrow> Suc i < length (batched_loop bs batch data) \<Longrightarrow>
   length (batched_loop bs batch data ! i) = bs"
proof (induction data arbitrary: batch i)
  case Nil
  then show ?case by (simp split: if_splits)
next
  case (Cons sample data)
  show ?case
  proof (cases "bs \<le> length batch")
    case True
    then have eq: "batched_loop bs batch (sample # data) = batch # batched_loop bs [sample] data"
      by simp
    show ?thesis
    proof (cases i)
      case 0
      then show ?thesis using True Cons.prems(2) unfolding eq by simp
    next
      case (Suc i')
      have "Suc i' < length (batched_loop bs [sample] data)"
        using Cons.prems(3) Suc unfolding eq by simp
      then have "length (batched_loop bs [sample] data ! i') = bs"
        using Cons.prems(1) by (intro Cons.IH) simp_all
      then show ?thesis unfolding eq Suc by simp
    qed
  next
    case False
    then have eq: "batched_loop bs batch (sample # data) = batched_loop bs (batch @ [sample]) data"
      by simp
    have "Suc i < length (batched_loop bs (batch @ [sample]) data)"
      using Cons.prems(3) unfolding eq .
    then show ?thesis
      unfolding eq using Cons.prems(1) False by (intro Cons.IH) simp_all
  qed
qed

lemma batched_loop_bounds:
  "0 < bs \<Longrightarrow> length batch \<le> bs \<Longrightarrow> b \<in> set (batched_loop bs batch data) \<Longrightarrow>
   0 < length b \<and> length b \<le> bs"
proof (induction data arbitrary: batch)
  case Nil
  then show ?case by (auto split: if_splits)
next
  case (Cons sample data)
  show ?case
  proof (cases "bs \<le> length batch")
    case True
    then have "b = batch \<or> b \<in> set (batched_loop bs [sample] data)"
      using Cons.prems(3) by simp
    then show ?thesis
    proof
      assume "b = batch"
      then show ?thesis using True Cons.prems(1,2) by simp
    next
      assume "b \<in> set (batched_loop bs [sample] data)"
      then show ?thesis using Cons.prems(1) by (intro Cons.IH) simp_all
    qed
  next
    case False
    then have "b \<in> set (batched_loop bs (batch @ [sample]) data)"
      using Cons.prems(3) by simp
    then show ?thesis using Cons.prems(1) False by (intro Cons.IH) simp_all
  qed
qed

lemma collate_fields:
  "concat (map keys (map collate bss)) = map prepared_key (concat bss)
   \<and> concat (map images (map collate bss)) = map prepared_image (concat bss)
   \<and> concat (map captions (map collate bss)) = map prepared_caption (concat bss)"
  by (induction bss) (simp_all add: collate_def)

lemma collated_batches:
  assumes "0 < bs" and "bl = map collate (batched bs prepared)"
  shows "concat (map keys bl) = map prepared_key prepared
     \<and> concat (map images bl) = map prepared_image prepared
     \<and> concat (map captions bl) = map prepared_caption prepared
     \<and> (\<forall>i. Suc i < length bl \<longrightarrow> length (images (bl ! i)) = bs)
     \<and> (\<forall>b \<in> set bl. 0 < length (images b) \<and> length (images b) \<le> bs
           \<and> length (keys b) = length (images b) \<and> length (captions b) = length (images b))"
proof -
  let ?bss = "batched bs prepared"
  note bs = assms(1)
  note bl = assms(2)
  have c: "concat ?bss = prepared"
    by (simp add: batched_def concat_batched_loop)
  have full: "length (images (bl ! i)) = bs" if i: "Suc i < length bl" for i
  proof -
    have "length (?bss ! i) = bs"
      unfolding batched_def using bs i by (intro batched_loop_full) (simp_all add: bl batched_def)
    then show ?thesis using i by (simp add: bl collate_def)
  qed
  have bounds: "0 < length (images b) \<and> length (images b) \<le> bs
      \<and> length (keys b) = length (images b) \<and> length (captions b) = length (images b)"
    if b: "b \<in> set bl" for b
  proof -
    from b obtain its where its: "its \<in> set ?bss" "b = collate its"
      by (auto simp: bl)
    have "0 < length its \<and> length its \<le> bs"
      using its(1) bs unfolding batched_def by (intro batched_loop_bounds [of _ "[]"]) simp_all
    then show ?thesis by (simp add: its(2) collate_def)
  qed
  show ?thesis
    using collate_fields [of ?bss] full bounds unfolding bl c by blast
qed

lemma dataloader_batches:
  assumes "0 < batch_size * device_count"
    and "dl = dataloader batch_size device_count prepared"
  shows "concat (map keys dl) = map prepared_key prepared
     \<and> concat (map images dl) = map prepared_image prepared
     \<and> concat (map captions dl) = map prepared_caption prepared
     \<and> (\<forall>i. Suc i < length dl \<longrightarrow>
           length (images (dl ! i)) = superbatch_size batch_size device_count)
     \<and> (\<forall>b \<in> set dl. 0 < length (images b)
           \<and> length (images b) \<le> superbatch_size batch_size device_count
           \<and> length (keys b) = length (images b) \<and> length (captions b) = length (images b))"
proof -
  have "0 < superbatch_size batch_size device_count"
    using assms(1) by (simp add: superbatch_size_def)
  moreover have "dl = map collate (batched (superbatch_size batch_size device_count) prepared)"
    by (simp add: assms(2) dataloader_def)
  ultimately show ?thesis by (rule collated_batches)
qed

section \<open>The batches of several loader workers\<close>

lemma interleaving_hd:
  "i < length xss \<Longrightarrow> xss ! i \<noteq> [] \<Longrightarrow>
   mset (concat xss) = add_mset (hd (xss ! i)) (mset (concat (xss[i := tl (xss ! i)])))"
proof (induction xss arbitrary: i)
  case Nil
  then show ?case by simp
next
  case (Cons xs xss)
  show ?case
  proof (cases i)
    case 0
    then show ?thesis using Cons.prems by (cases xs) simp_all
  next
    case (Suc k)
    then show ?thesis using Cons.prems Cons.IH [of k] by simp
  qed
qed

lemma interleaving_mset: "interleaving xss ys \<Longrightarrow> mset ys = mset (concat xss)"
proof (induction ys arbitrary: xss)
  case Nil
  then have "concat xss = []" by simp
  then show ?case by simp
next
  case (Cons y ys)
  then obtain i where i: "i < length xss" "xss ! i \<noteq> []" "hd (xss ! i) = y"
      "interleaving (xss[i := tl (xss ! i)]) ys"
    by auto
  have "mset ys = mset (concat (xss[i := tl (xss ! i)]))"
    using i(4) by (rule Cons.IH)
  then show ?case
    using interleaving_hd [OF i(1,2)] i(3) by simp
qed

lemma interleaving_subseq:
  "interleaving xss ys \<Longrightarrow> i < length xss \<Longrightarrow> subseq (xss ! i) ys"
proof (induction ys arbitrary: xss)
  case Nil
  then have "xss ! i = []" by simp
  then show ?case by simp
next
  case (Cons y ys)
  then obtain k where k: "k < length xss" "xss ! k \<noteq> []" "hd (xss ! k) = y"
      "interleaving (xss[k := tl (xss ! k)]) ys"
    by auto
  have sub: "subseq (xss[k := tl (xss ! k)] ! i) ys"
    using k(4) Cons.prems(2) by (intro Cons.IH) simp_all
  show ?case
  proof (cases "i = k")
    case True
    then have "subseq (tl (xss ! k)) ys"
      using sub k(1) by simp
    moreover have "xss ! k = y # tl (xss ! k)"
      using k(2,3) by (cases "xss ! k") simp_all
    ultimately show ?thesis
      unfolding True by (metis subseq_Cons2)
  next
    case False
    then have "subseq (xss ! i) ys"
      using sub by simp
    then show ?thesis by (rule list_emb_Cons)
  qed
qed

lemma interleaving_member:
  assumes "interleaving xss ys" and "y \<in> set ys"
  shows "\<exists>i < length xss. y \<in> set (xss ! i)"
proof -
  have "set ys = set (concat xss)"
    using interleaving_mset [OF assms(1)] by (metis set_mset_mset)
  then obtain xs where "xs \<in> set xss" "y \<in> set xs"
    using assms(2) by auto
  then show ?thesis by (metis in_set_conv_nth)
qed

lemma mset_concat_cong: "mset xss = mset yss \<Longrightarrow> mset (concat xss) = mset (concat yss)"
proof -
  assume a: "mset xss = mset yss"
  have "mset (concat zss) = sum_mset (image_mset mset (mset zss))" for zss :: "'a list list"
    by (induction zss) simp_all
  then show ?thesis using a by simp
qed

lemma residues_partition:
  fixes n :: nat
  assumes "0 < n"
  shows "(\<Sum>wid \<in> {0..<n}. mset (map f (filter (\<lambda>i. i mod n = wid) xs))) = mset (map f xs)"
proof (induction xs)
  case Nil
  show ?case by simp
next
  case (Cons x xs)
  have x: "x mod n \<in> {0..<n}" using assms by simp
  have "(\<Sum>wid \<in> {0..<n}. mset (map f (filter (\<lambda>i. i mod n = wid) (x # xs))))
      = (\<Sum>wid \<in> {0..<n}. (if x mod n = wid then {#f x#} else {#})
            + mset (map f (filter (\<lambda>i. i mod n = wid) xs)))"
    by (intro sum.cong refl) simp
  also have "\<dots> = (\<Sum>wid \<in> {0..<n}. if x mod n = wid then {#f x#} else {#})
      + (\<Sum>wid \<in> {0..<n}. mset (map f (filter (\<lambda>i. i mod n = wid) xs)))"
    by (rule sum.distrib)
  also have "(\<Sum>wid \<in> {0..<n}. if x mod n = wid then {#f x#} else {#}) = {#f x#}"
    using x by (simp add: sum.delta)
  finally show ?case using Cons by simp
qed

lemma split_by_worker_all:
  assumes "0 < num_workers"
  shows "mset (concat (map (\<lambda>wid. split_by_worker wid num_workers urls) [0..<num_workers]))
     = mset urls"
proof -
  have "mset (concat (map (\<lambda>wid. split_by_worker wid num_workers urls) [0..<num_workers]))
      = sum_list (map (\<lambda>wid. mset (split_by_worker wid num_workers urls)) [0..<num_workers])"
    by (simp add: mset_concat comp_def)
  also have "\<dots> = (\<Sum>wid \<in> {0..<num_workers}. mset (split_by_worker wid num_workers urls))"
    by (simp add: interv_sum_list_conv_sum_set_nat)
  also have "\<dots> = mset (map ((!) urls) [0..<length urls])"
    unfolding split_by_worker_def using assms by (rule residues_partition)
  also have "\<dots> = mset urls"
    by (simp add: map_nth)
  finally show ?thesis .
qed

lemma worker_batches_fields:
  assumes "0 < bs"
  shows "concat (map keys (worker_batches bs n wid shards))
       = map prepared_key (concat (split_by_worker wid n shards))
     \<and> concat (map images (worker_batches bs n wid shards))
       = map prepared_image (concat (split_by_worker wid n shards))
     \<and> concat (map captions (worker_batches bs n wid shards))
       = map prepared_caption (concat (split_by_worker wid n shards))
     \<and> (\<forall>i. Suc i < length (worker_batches bs n wid shards) \<longrightarrow>
           length (images (worker_batches bs n wid shards ! i)) = bs)
     \<and> (\<forall>b \<in> set (worker_batches bs n wid shards).
           0 < length (images b) \<and> length (images b) \<le> bs
         \<and> length (keys b) = length (images b) \<and> length (captions b) = length (images b))"
  using assms by (rule collated_batches) (simp add: worker_batches_def)

lemma workers_fields:
  assumes "0 < bs"
  shows "concat (map images (concat (map (\<lambda>wid. worker_batches bs n wid shards) ws)))
       = map prepared_image (concat (concat (map (\<lambda>wid. split_by_worker wid n shards) ws)))
     \<and> concat (map keys (concat (map (\<lambda>wid. worker_batches bs n wid shards) ws)))
       = map prepared_key (concat (concat (map (\<lambda>wid. split_by_worker wid n shards) ws)))
     \<and> concat (map captions (concat (map (\<lambda>wid. worker_batches bs n wid shards) ws)))
       = map prepared_caption (concat (concat (map (\<lambda>wid. split_by_worker wid n shards) ws)))"
proof (induction ws)
  case Nil
  show ?case by simp
next
  case (Cons wid ws)
  then show ?case
    using worker_batches_fields [OF assms, of n wid shards] by simp
qed

lemma dl_yields_items:
  assumes bs: "0 < bs" and n: "0 < num_workers"
    and out: "dl_yields bs num_workers shards out"
  shows "mset (concat (map images out)) = mset (map prepared_image (concat shards))
     \<and> mset (concat (map keys out)) = mset (map prepared_key (concat shards))
     \<and> mset (concat (map captions out)) = mset (map prepared_caption (concat shards))"
proof -
  let ?wb = "\<lambda>wid. worker_batches bs num_workers wid shards"
  let ?all = "concat (map ?wb [0..<num_workers])"
  let ?items = "concat (concat (map (\<lambda>wid. split_by_worker wid num_workers shards) [0..<num_workers]))"
  have m: "mset out = mset ?all"
    using out unfolding dl_yields_def by (rule interleaving_mset)
  have items: "mset ?items = mset (concat shards)"
    using split_by_worker_all [OF n, of shards] by (rule mset_concat_cong)
  note wf = workers_fields [OF bs, of num_workers shards "[0..<num_workers]"]
  have w1: "concat (map images ?all) = map prepared_image ?items"
    and w2: "concat (map keys ?all) = map prepared_key ?items"
    and w3: "concat (map captions ?all) = map prepared_caption ?items"
    using wf by blast+
  have "mset (concat (map images out)) = mset (concat (map images ?all))"
    using m by (intro mset_concat_cong) (metis mset_map)
  then have a: "mset (concat (map images out)) = mset (map prepared_image (concat shards))"
    unfolding w1 using items by (metis mset_map)
  have "mset (concat (map keys out)) = mset (concat (map keys ?all))"
    using m by (intro mset_concat_cong) (metis mset_map)
  then have b: "mset (concat (map keys out)) = mset (map prepared_key (concat shards))"
    unfolding w2 using items by (metis mset_map)
  have "mset (concat (map captions out)) = mset (concat (map captions ?all))"
    using m by (intro mset_concat_cong) (metis mset_map)
  then have c: "mset (concat (map captions out)) = mset (map prepared_caption (concat shards))"
    unfolding w3 using items by (metis mset_map)
  show ?thesis
    using a b c by simp
qed

text \<open>
  Claim C8, as amended. Each loader process cuts its own sequence of prepared items
  into consecutive batches, in order and without loss: every batch of the process but
  its last has exactly \<open>batch_size * device_count\<close> items, and its last batch has at
  least one item and at most that many. In the streaming notebook the one process of
  the notebook does this for the whole item sequence. In the webdataset notebook each
  of the \<open>num_workers\<close> worker processes does it for the items of its own shards, the
  shards \<open>wid\<close>, \<open>wid + num_workers\<close> and so on; the loader delivers the batches of all
  workers, each batch once and those of one worker in their order, so every
  delivered batch has between one and \<open>batch_size * device_count\<close> items, and the
  items of the delivered batches are the items of the shards, each once. The loop
  hands the images of each delivered batch to the encoder.
\<close>

theorem batch_sizes:
  assumes "0 < batch_size * device_count"
    and "bs = superbatch_size batch_size device_count"
    and "dl = dataloader batch_size device_count prepared"
    and "0 < num_workers"
    and "dl_yields bs num_workers shards out"
    and "wb = (\<lambda>wid. worker_batches bs num_workers wid shards)"
  shows "concat (map keys dl) = map prepared_key prepared
     \<and> concat (map images dl) = map prepared_image prepared
     \<and> concat (map captions dl) = map prepared_caption prepared
     \<and> (\<forall>i. Suc i < length dl \<longrightarrow> length (images (dl ! i)) = bs)
     \<and> (\<forall>b \<in> set dl. 0 < length (images b) \<and> length (images b) \<le> bs
           \<and> length (keys b) = length (images b) \<and> length (captions b) = length (images b))
     \<and> (\<forall>wid < num_workers.
           concat (map keys (wb wid)) = map prepared_key (concat (split_by_worker wid num_workers shards))
         \<and> concat (map images (wb wid)) = map prepared_image (concat (split_by_worker wid num_workers shards))
         \<and> concat (map captions (wb wid)) = map prepared_caption (concat (split_by_worker wid num_workers shards))
         \<and> (\<forall>i. Suc i < length (wb wid) \<longrightarrow> length (images (wb wid ! i)) = bs)
         \<and> subseq (wb wid) out)
     \<and> mset (concat (map (\<lambda>wid. split_by_worker wid num_workers shards) [0..<num_workers]))
         = mset shards
     \<and> mset out = mset (concat (map wb [0..<num_workers]))
     \<and> (\<forall>b \<in> set out. \<exists>wid < num_workers. b \<in> set (wb wid))
     \<and> (\<forall>b \<in> set out. 0 < length (images b) \<and> length (images b) \<le> bs
           \<and> length (keys b) = length (images b) \<and> length (captions b) = length (images b))
     \<and> mset (concat (map keys out)) = mset (map prepared_key (concat shards))
     \<and> mset (concat (map images out)) = mset (map prepared_image (concat shards))
     \<and> mset (concat (map captions out)) = mset (map prepared_caption (concat shards))
     \<and> (\<forall>b. \<forall>e. enc (images b) = Inl e \<longrightarrow> encode_batch enc b = Inl e)
     \<and> (\<forall>b. \<forall>toks. enc (images b) = Inr toks \<longrightarrow>
           encode_batch enc b = from_dict (keys b) (captions b) (map array2string toks))"
proof -
  let ?wbs = "map wb [0..<num_workers]"
  have bs: "0 < bs"
    using assms(1) by (simp add: assms(2) superbatch_size_def)
  have il: "interleaving ?wbs out"
    using assms(5) by (simp add: dl_yields_def assms(6))
  have s: "concat (map keys dl) = map prepared_key prepared
     \<and> concat (map images dl) = map prepared_image prepared
     \<and> concat (map captions dl) = map prepared_caption prepared
     \<and> (\<forall>i. Suc i < length dl \<longrightarrow> length (images (dl ! i)) = bs)
     \<and> (\<forall>b \<in> set dl. 0 < length (images b) \<and> length (images b) \<le> bs
           \<and> length (keys b) = length (images b) \<and> length (captions b) = length (images b))"
    unfolding assms(2) using assms(1,3) by (rule dataloader_batches)
  have w: "concat (map keys (wb wid)) = map prepared_key (concat (split_by_worker wid num_workers shards))
         \<and> concat (map images (wb wid)) = map prepared_image (concat (split_by_worker wid num_workers shards))
         \<and> concat (map captions (wb wid)) = map prepared_caption (concat (split_by_worker wid num_workers shards))
         \<and> (\<forall>i. Suc i < length (wb wid) \<longrightarrow> length (images (wb wid ! i)) = bs)
         \<and> subseq (wb wid) out"
    if wid: "wid < num_workers" for wid
  proof -
    have "subseq (?wbs ! wid) out"
      using il by (rule interleaving_subseq) (simp add: wid)
    then have "subseq (wb wid) out"
      using wid by simp
    then show ?thesis
      using worker_batches_fields [OF bs, of num_workers wid shards] by (simp add: assms(6))
  qed
  have p: "mset (concat (map (\<lambda>wid. split_by_worker wid num_workers shards) [0..<num_workers]))
         = mset shards"
    using assms(4) by (rule split_by_worker_all)
  have m: "mset out = mset (concat ?wbs)"
    using il by (rule interleaving_mset)
  have mem: "\<exists>wid < num_workers. b \<in> set (wb wid)" if b: "b \<in> set out" for b
  proof -
    obtain i where "i < length ?wbs" "b \<in> set (?wbs ! i)"
      using interleaving_member [OF il b] by blast
    then show ?thesis by (intro exI [of _ i]) simp
  qed
  have bounds: "0 < length (images b) \<and> length (images b) \<le> bs
           \<and> length (keys b) = length (images b) \<and> length (captions b) = length (images b)"
    if b: "b \<in> set out" for b
  proof -
    obtain wid where "b \<in> set (wb wid)"
      using mem [OF b] by blast
    then show ?thesis
      using worker_batches_fields [OF bs, of num_workers wid shards] by (simp add: assms(6))
  qed
  note items = dl_yields_items [OF bs assms(4,5)]
  have e1: "encode_batch enc b = Inl e" if "enc (images b) = Inl e" for b e
    using that by (simp add: encode_batch_def)
  have e2: "encode_batch enc b = from_dict (keys b) (captions b) (map array2string toks)"
    if "enc (images b) = Inr toks" for b toks
    using that by (simp add: encode_batch_def)
  show ?thesis
    using s w p m mem bounds items e1 e2 by blast
qed

lemma example_prepared_batches:
  "dataloader 2 2 example_prepared
   = [\<lparr>keys = [''k'' @ py_str 0, ''k'' @ py_str 1, ''k'' @ py_str 2, ''k'' @ py_str 3],
       images = [0, 1, 2, 3],
       captions = [''a photo. of it'', ''a photo. of it'', ''a photo. of it'', ''a photo. of it'']\<rparr>,
      \<lparr>keys = [''k'' @ py_str 4, ''k'' @ py_str 5], images = [4, 5],
       captions = [''a photo. of it'', ''a photo. of it'']\<rparr>]"
  by (simp add: dataloader_def superbatch_size_def batched_def collate_def prepare_item_def
      example_prepared_def example_item_def example_caption)

lemma example_worker_batches:
  "worker_batches 4 2 0 example_shards
     = [collate (example_prepare [0, 1, 2, 3]), collate (example_prepare [4, 5])]"
  "worker_batches 4 2 1 example_shards
     = [collate (example_prepare [6, 7, 8, 9]), collate (example_prepare [10, 11])]"
  by (simp_all add: worker_batches_def split_by_worker_def example_shards_def batched_def
      example_prepare_def)

lemma interleaving_in_turn: "interleaving [[a, c], [b, d]] [a, b, c, d]"
proof -
  have 4: "interleaving [[], []] ([] :: 'a list)" by simp
  have 3: "interleaving [[], [d]] [d]"
    unfolding interleaving.simps(2) using 4 by (intro bexI [of _ 1]) simp_all
  have 2: "interleaving [[c], [d]] [c, d]"
    unfolding interleaving.simps(2) using 3 by (intro bexI [of _ 0]) simp_all
  have 1: "interleaving [[c], [b, d]] [b, c, d]"
    unfolding interleaving.simps(2) using 2 by (intro bexI [of _ 1]) simp_all
  show ?thesis
    unfolding interleaving.simps(2) using 1 by (intro bexI [of _ 0]) simp_all
qed

lemma example_yields: "dl_yields 4 2 example_shards example_out"
proof -
  have e: "map (\<lambda>wid. worker_batches 4 2 wid example_shards) [0..<2]
      = [worker_batches 4 2 0 example_shards, worker_batches 4 2 1 example_shards]"
    by (simp add: upt_rec)
  show ?thesis
    unfolding dl_yields_def example_out_def e example_worker_batches list.map
    by (rule interleaving_in_turn)
qed

lemma example_batch_images: "images (collate (example_prepare ns)) = ns"
  by (simp add: collate_def example_prepare_def prepare_item_def example_item_def comp_def)

theorem batch_sizes_witness:
  "(0::nat) < 2 * 2
   \<and> superbatch_size 2 2 = 4
   \<and> map (\<lambda>b. length (images b)) (dataloader 2 2 example_prepared) = [4, 2]
   \<and> concat (map images (dataloader 2 2 example_prepared)) = map prepared_image example_prepared
   \<and> length (images (dataloader 2 2 example_prepared ! 0)) = superbatch_size 2 2
   \<and> (0::nat) < 2
   \<and> dl_yields 4 2 example_shards example_out
   \<and> map images (worker_batches 4 2 0 example_shards) = [[0, 1, 2, 3], [4, 5]]
   \<and> map images (worker_batches 4 2 1 example_shards) = [[6, 7, 8, 9], [10, 11]]
   \<and> map images example_out = [[0, 1, 2, 3], [6, 7, 8, 9], [4, 5], [10, 11]]
   \<and> subseq (worker_batches 4 2 0 example_shards) example_out
   \<and> subseq (worker_batches 4 2 1 example_shards) example_out
   \<and> mset (concat (map images example_out)) = mset (map prepared_image (concat example_shards))"
proof -
  have c0: "(0::nat) < 2 * 2" by simp
  have c1: "superbatch_size 2 2 = 4" by (simp add: superbatch_size_def)
  have c2: "map (\<lambda>b. length (images b)) (dataloader 2 2 example_prepared) = [4, 2]"
    unfolding example_prepared_batches by simp
  have c5: "(0::nat) < 2" by simp
  note c6 = example_yields
  have c7: "map images (worker_batches 4 2 0 example_shards) = [[0, 1, 2, 3], [4, 5]]"
    and c8: "map images (worker_batches 4 2 1 example_shards) = [[6, 7, 8, 9], [10, 11]]"
    and c9: "map images example_out = [[0, 1, 2, 3], [6, 7, 8, 9], [4, 5], [10, 11]]"
    unfolding example_worker_batches example_out_def
    by (simp_all add: example_batch_images)
  note th = batch_sizes [of 2 2 4 "dataloader 2 2 example_prepared" example_prepared 2
      example_shards example_out "\<lambda>wid. worker_batches 4 2 wid example_shards" example_encode,
      OF c0 c1 [symmetric] refl c5 c6 refl]
  have c3: "concat (map images (dataloader 2 2 example_prepared)) = map prepared_image example_prepared"
    using th by blast
  have l: "Suc 0 < length (dataloader 2 2 example_prepared)"
    unfolding example_prepared_batches by simp
  have "\<forall>i. Suc i < length (dataloader 2 2 example_prepared) \<longrightarrow>
      length (images (dataloader 2 2 example_prepared ! i)) = 4"
    using th by blast
  then have "length (images (dataloader 2 2 example_prepared ! 0)) = 4"
    using l by blast
  then have c4: "length (images (dataloader 2 2 example_prepared ! 0)) = superbatch_size 2 2"
    unfolding c1 .
  have w: "\<forall>wid < 2. subseq (worker_batches 4 2 wid example_shards) example_out"
    using th by blast
  have c10: "subseq (worker_batches 4 2 0 example_shards) example_out"
    and c11: "subseq (worker_batches 4 2 1 example_shards) example_out"
    using w by simp_all
  have c12: "mset (concat (map images example_out)) = mset (map prepared_image (concat example_shards))"
    using th by blast
  show ?thesis
    by (intro conjI c0 c1 c2 c3 c4 c5 c6 c7 c8 c9 c10 c11 c12)
qed

text \<open>
  Against claim C8 as stated: six items on two devices with two items each give a
  last batch of two items, one for each device, not of four.
\<close>

theorem short_last_batch:
  "superbatch_size 2 2 = 4
   \<and> length (dataloader 2 2 example_prepared) = 2
   \<and> length (images (dataloader 2 2 example_prepared ! 1)) = 2
   \<and> (\<exists>toks. example_encode (images (dataloader 2 2 example_prepared ! 1)) = Inr toks)"
  unfolding example_prepared_batches
  by (simp add: superbatch_size_def example_encode_def)


section \<open>How many records a split file holds\<close>







section \<open>The encoder call\<close>

























end
